theory Spec2Isabelle
  imports Main "HOL-Library.Word" "HOL-Library.Sublist" "HOL-Library.Multiset"
begin

section \<open>The proxy-group base of adapter/outboundgroup/groupbase.go\<close>

text \<open>
  A shallow embedding of \<^verbatim>\<open>GroupBase\<close>: the resolution of the backend set
  (\<^verbatim>\<open>GetProxies\<close>), the latency probe (\<^verbatim>\<open>URLTest\<close>), the failure counter
  (\<^verbatim>\<open>onDialFailed\<close>, \<^verbatim>\<open>onDialSuccess\<close>) and the health-check sweep
  (\<^verbatim>\<open>healthCheck\<close>). Every function takes the group state and returns the new one.
  A Go runtime panic (index out of range, \<^verbatim>\<open>MustCompile\<close> on a bad pattern) is the
  value \<open>None\<close>.
\<close>

subsection \<open>Collaborators declared outside this file\<close>

text \<open>
  Modelled from the spec: the interface \<^verbatim>\<open>C.Proxy\<close> (package constant) is not in the
  source tree. The spec (section 6) gives a backend a stable \<^verbatim>\<open>name()\<close>; \<open>addr\<close>
  stands for the identity of the Go object, so that two backends of one name stay apart.
\<close>

record proxy =
  Name :: string
  addr :: nat

text \<open>
  Modelled from the spec: \<^verbatim>\<open>provider.VehicleType\<close> (package constant/provider) is not
  in the source tree; the code only compares it with \<^verbatim>\<open>types.Compatible\<close>.
\<close>

datatype VehicleType = types_File | types_HTTP | types_Compatible

text \<open>
  Modelled from the spec: the interface \<^verbatim>\<open>provider.ProxyProvider\<close> is not in the source
  tree. A provider is the snapshot of what its operations return (\<^verbatim>\<open>Proxies()\<close>,
  \<^verbatim>\<open>Version()\<close>, a \<^verbatim>\<open>uint32\<close>, and \<^verbatim>\<open>VehicleType()\<close>) together with two
  counters that record how often \<^verbatim>\<open>Touch()\<close> and \<^verbatim>\<open>HealthCheck()\<close> were invoked
  on it; what these two do inside the provider is opaque to the group (spec, section 6).
\<close>

record provider =
  Proxies :: "proxy list"
  Version :: "32 word"
  VehicleType :: VehicleType
  touches :: nat
  healthChecks :: nat

definition Touch :: "provider \<Rightarrow> provider" where
  "Touch pd = pd\<lparr>touches := touches pd + 1\<rparr>"

definition HealthCheck :: "provider \<Rightarrow> provider" where
  "HealthCheck pd = pd\<lparr>healthChecks := healthChecks pd + 1\<rparr>"

text \<open>
  Modelled from the spec: \<^verbatim>\<open>C.AdapterType\<close> (package constant) is not in the source
  tree. The spec (section 9) gives the closed enumeration Direct, Reject, Pass, Compatible and
  Routed, the last standing for every kind that carries traffic to a remote endpoint.
\<close>

datatype AdapterType = C_Direct | C_Reject | C_Compatible | C_Pass | C_Routed

text \<open>
  A compiled pattern of the library regexp2 is taken as the predicate it decides on a name:
  \<open>FindStringMatch r name\<close> holds when the call \<^verbatim>\<open>r.FindStringMatch(name)\<close> returns a
  match that is not nil (the code drops the error, so a failed match counts as no match).
\<close>

type_synonym regexp = "string \<Rightarrow> bool"

definition FindStringMatch :: "regexp \<Rightarrow> string \<Rightarrow> bool" where
  "FindStringMatch filterReg name = filterReg name"

text \<open>
  Instants are nanoseconds on one clock. \<^verbatim>\<open>Time.Sub\<close> saturates at the bounds of
  \<^verbatim>\<open>time.Duration\<close> (an \<^verbatim>\<open>int64\<close>), and \<^verbatim>\<open>time.Since(t)\<close> is
  \<^verbatim>\<open>time.Now().Sub(t)\<close>; the clock reading is an argument.
\<close>

type_synonym time = int

definition time_Second :: int where
  "time_Second = 1000000000"

definition time_Sub :: "time \<Rightarrow> time \<Rightarrow> int" where
  "time_Sub t u =
     (let d = t - u in
      if d > 2 ^ 63 - 1 then 2 ^ 63 - 1
      else if d < - (2 ^ 63) then - (2 ^ 63)
      else d)"

definition time_Since :: "time \<Rightarrow> time \<Rightarrow> int" where
  "time_Since now t = time_Sub now t"

text \<open>\<^verbatim>\<open>strings.Contains(s, substr)\<close> and \<^verbatim>\<open>strings.Split(s, sep)\<close> for a separator
  of one character.\<close>

fun strings_Contains :: "string \<Rightarrow> string \<Rightarrow> bool" where
  "strings_Contains [] substr = (substr = [])"
| "strings_Contains (c # cs) substr = (prefix substr (c # cs) \<or> strings_Contains cs substr)"

fun strings_Split :: "string \<Rightarrow> char \<Rightarrow> string list" where
  "strings_Split [] sep = [[]]"
| "strings_Split (c # cs) sep =
     (if c = sep then [] # strings_Split cs sep
      else (case strings_Split cs sep of
              [] \<Rightarrow> [[c]]
            | w # ws \<Rightarrow> (c # w) # ws))"

subsection \<open>The group state\<close>

text \<open>
  The fields of \<^verbatim>\<open>GroupBase\<close>. The embedded \<^verbatim>\<open>outbound.Base\<close> only names the group in
  log lines and the mutex \<^verbatim>\<open>failedTestMux\<close> only serialises the counting task; neither
  is state of the model. \<^verbatim>\<open>failedTimes\<close> is a Go \<^verbatim>\<open>int\<close>; it is reset long before
  it could overflow, so it is an unbounded integer here. \<open>sweeps\<close> is a ghost field, absent
  from the source: it counts the sweeps that got past the single-flight guard of
  \<^verbatim>\<open>healthCheck\<close>.
\<close>

record GroupBase =
  filterRegs :: "regexp list"
  providers :: "provider list"
  failedTimes :: int
  failedTime :: time
  failedTesting :: bool
  proxies :: "proxy list list"
  versions :: "32 word list"
  sweeps :: nat

record GroupBaseOption =
  opt_filter :: string
  opt_providers :: "provider list"

text \<open>The loop of \<^verbatim>\<open>NewGroupBase\<close> over the split filter string; \<open>compile\<close> stands for
  \<^verbatim>\<open>regexp2.MustCompile\<close>, which panics on a pattern it cannot compile.\<close>

fun compile_filters :: "(string \<Rightarrow> regexp option) \<Rightarrow> string list \<Rightarrow> regexp list \<Rightarrow> regexp list option" where
  "compile_filters compile [] regs = Some regs"
| "compile_filters compile (f # fs) regs =
     (case compile f of
        None \<Rightarrow> None
      | Some filterReg \<Rightarrow> compile_filters compile fs (regs @ [filterReg]))"

definition NewGroupBase :: "(string \<Rightarrow> regexp option) \<Rightarrow> GroupBaseOption \<Rightarrow> GroupBase option" where
  "NewGroupBase compile opt =
     (case (if opt_filter opt \<noteq> [] then compile_filters compile (strings_Split (opt_filter opt) (CHR 0x60)) []
            else Some []) of
        None \<Rightarrow> None
      | Some regs \<Rightarrow>
          Some \<lparr> filterRegs = regs,
                 providers = opt_providers opt,
                 failedTimes = 0,
                 failedTime = 0,
                 failedTesting = False,
                 proxies = replicate (length (opt_providers opt)) [],
                 versions = replicate (length (opt_providers opt)) 0,
                 sweeps = 0 \<rparr>)"

subsection \<open>GetProxies\<close>

text \<open>The loop of lines 68 to 73, taken when no filter is configured: touch each provider
  when asked to, and append its backends.\<close>

fun collect_all :: "bool \<Rightarrow> provider list \<Rightarrow> proxy list \<Rightarrow> provider list \<times> proxy list" where
  "collect_all touch [] acc = ([], acc)"
| "collect_all touch (pd # pds) acc =
     (let pd' = (if touch then Touch pd else pd);
          (pds', acc') = collect_all touch pds (acc @ Proxies pd')
      in (pd' # pds', acc'))"

text \<open>
  The nested iteration of lines 100 to 110, which lines 128 to 138 repeat: for each filter in
  order, for each backend in order, a backend whose name the filter matches and that
  \<open>proxiesSet\<close> does not hold yet is appended to \<open>newProxies\<close>. The pair is
  \<open>(proxiesSet, newProxies)\<close>.
\<close>

fun filter_inner :: "regexp \<Rightarrow> proxy list \<Rightarrow> string set \<times> proxy list \<Rightarrow> string set \<times> proxy list" where
  "filter_inner filterReg [] st = st"
| "filter_inner filterReg (p # ps) (proxiesSet, newProxies) =
     (let name = Name p in
      if FindStringMatch filterReg name then
        (if name \<notin> proxiesSet
         then filter_inner filterReg ps (insert name proxiesSet, newProxies @ [p])
         else filter_inner filterReg ps (proxiesSet, newProxies))
      else filter_inner filterReg ps (proxiesSet, newProxies))"

fun filter_outer :: "regexp list \<Rightarrow> proxy list \<Rightarrow> string set \<times> proxy list \<Rightarrow> string set \<times> proxy list" where
  "filter_outer [] ps st = st"
| "filter_outer (filterReg # regs) ps st = filter_outer regs ps (filter_inner filterReg ps st)"

text \<open>The loop of lines 139 to 145: the backends whose name is in no set yet go to the end.\<close>

fun add_not_matched :: "proxy list \<Rightarrow> string set \<times> proxy list \<Rightarrow> string set \<times> proxy list" where
  "add_not_matched [] st = st"
| "add_not_matched (p # ps) (proxiesSet, newProxies) =
     (let name = Name p in
      if name \<notin> proxiesSet
      then add_not_matched ps (insert name proxiesSet, newProxies @ [p])
      else add_not_matched ps (proxiesSet, newProxies))"

text \<open>The list a stale slot is recomputed to (lines 98 to 112).\<close>

definition filter_proxies :: "regexp list \<Rightarrow> proxy list \<Rightarrow> proxy list" where
  "filter_proxies regs ps = snd (filter_outer regs ps ({}, []))"

text \<open>The second pass over the combined list (lines 126 to 146).\<close>

definition cross_pass :: "regexp list \<Rightarrow> proxy list \<Rightarrow> proxy list" where
  "cross_pass regs ps = snd (add_not_matched ps (filter_outer regs ps ({}, [])))"

text \<open>
  The body of the loop of lines 80 to 114 for the provider at index \<open>i\<close>. Run by one thread,
  the compare-and-swap of line 92 succeeds whenever the versions differ. An index beyond
  \<open>versions\<close> or \<open>proxies\<close> is a panic.
\<close>

definition refresh_slot :: "bool \<Rightarrow> nat \<Rightarrow> GroupBase \<Rightarrow> GroupBase option" where
  "refresh_slot touch i gb =
     (if \<not> i < length (providers gb) then None
      else
        let pd = (if touch then Touch (providers gb ! i) else providers gb ! i);
            gb1 = gb\<lparr>providers := (providers gb)[i := pd]\<rparr>
        in
        if VehicleType pd = types_Compatible then
          (if i < length (versions gb1) \<and> i < length (proxies gb1)
           then Some (gb1\<lparr>versions := (versions gb1)[i := Version pd],
                           proxies := (proxies gb1)[i := Proxies pd]\<rparr>)
           else None)
        else if \<not> i < length (versions gb1) then None
        else
          let version = versions gb1 ! i in
          if version \<noteq> Version pd then
            (if i < length (proxies gb1)
             then Some (gb1\<lparr>versions := (versions gb1)[i := Version pd],
                             proxies := (proxies gb1)[i := filter_proxies (filterRegs gb1) (Proxies pd)]\<rparr>)
             else None)
          else Some gb1)"

fun refresh_slots :: "bool \<Rightarrow> nat list \<Rightarrow> GroupBase \<Rightarrow> GroupBase option" where
  "refresh_slots touch [] gb = Some gb"
| "refresh_slots touch (i # is) gb =
     (case refresh_slot touch i gb of
        None \<Rightarrow> None
      | Some gb' \<Rightarrow> refresh_slots touch is gb')"

text \<open>
  \<^verbatim>\<open>GetProxies\<close>. \<open>tunnel_Proxies\<close> stands for the registry \<^verbatim>\<open>tunnel.Proxies()\<close>,
  which is not in the source tree; indexing a Go map is total, and the spec (section 6) has
  the registry hold an always-available backend under its well-known key.
\<close>

definition GetProxies :: "(string \<Rightarrow> proxy) \<Rightarrow> bool \<Rightarrow> GroupBase \<Rightarrow> (proxy list \<times> GroupBase) option" where
  "GetProxies tunnel_Proxies touch gb =
     (if length (filterRegs gb) = 0 then
        (let (pds, ps) = collect_all touch (providers gb) [];
             gb' = gb\<lparr>providers := pds\<rparr>
         in if length ps = 0 then Some (ps @ [tunnel_Proxies ''COMPATIBLE''], gb')
            else Some (ps, gb'))
      else
        (case refresh_slots touch [0..<length (providers gb)] gb of
           None \<Rightarrow> None
         | Some gb' \<Rightarrow>
             (let ps = concat (proxies gb') in
              if length ps = 0 then Some (ps @ [tunnel_Proxies ''COMPATIBLE''], gb')
              else if length (providers gb') > 1 \<and> length (filterRegs gb') > 1
                   then Some (cross_pass (filterRegs gb') ps, gb')
              else Some (ps, gb'))))"

subsection \<open>URLTest\<close>

text \<open>The error of \<^verbatim>\<open>URLTest\<close>, whose text is \<^verbatim>\<open>get delay: all proxies timeout\<close>.\<close>

datatype error = AllProxiesTimeout

text \<open>
  Modelled from the spec: the method \<^verbatim>\<open>URLTest\<close> of a backend is not in the source tree. A
  probing task is the position of its backend in the resolved list together with the backend;
  \<open>probe t\<close> is what the call \<^verbatim>\<open>proxy.URLTest(ctx, url)\<close> of task \<open>t\<close> returns, the delay
  (a \<^verbatim>\<open>uint16\<close>) or \<open>None\<close> for an error, a timeout included. Two tasks on one backend may
  get different answers.
\<close>

type_synonym probe_task = "nat \<times> proxy"

text \<open>The writes of the probing tasks into \<open>mp\<close> (lines 161 to 166), in the order in which
  the tasks reach them; the lock makes each write atomic.\<close>

fun store_delays :: "(probe_task \<Rightarrow> 16 word option) \<Rightarrow> probe_task list \<Rightarrow> (string \<rightharpoonup> 16 word) \<Rightarrow> (string \<rightharpoonup> 16 word)" where
  "store_delays probe [] mp = mp"
| "store_delays probe (t # ts) mp =
     (case probe t of
        None \<Rightarrow> store_delays probe ts mp
      | Some delay \<Rightarrow> store_delays probe ts (mp(Name (snd t) \<mapsto> delay)))"

text \<open>
  \<^verbatim>\<open>URLTest\<close>. One task is started per element of the resolved list. The tasks run
  concurrently, so the order of their writes is not that of the list: \<open>sched\<close> rearranges the
  tasks into the order in which they finish. Both results of the Go function are returned, the
  mapping and the error (\<open>None\<close> for nil).
\<close>

definition URLTest ::
  "(string \<Rightarrow> proxy) \<Rightarrow> (probe_task \<Rightarrow> 16 word option) \<Rightarrow> (probe_task list \<Rightarrow> probe_task list) \<Rightarrow> GroupBase
     \<Rightarrow> ((string \<rightharpoonup> 16 word) \<times> error option \<times> GroupBase) option" where
  "URLTest tunnel_Proxies probe sched gb =
     (case GetProxies tunnel_Proxies False gb of
        None \<Rightarrow> None
      | Some (ps, gb') \<Rightarrow>
          (let mp = store_delays probe (sched (enumerate 0 ps)) Map.empty in
           if dom mp = {} then Some (mp, Some AllProxiesTimeout, gb')
           else Some (mp, None, gb')))"

subsection \<open>healthCheck, onDialFailed and onDialSuccess\<close>

definition maxFailedTimes :: int where
  "maxFailedTimes = 5"

definition failedTimeoutInterval :: int where
  "failedTimeoutInterval = 5 * time_Second"

definition failedIntervalTime :: int where
  "failedIntervalTime = 5 * 1000"

text \<open>
  \<^verbatim>\<open>healthCheck\<close> in its three phases: the flag is set (line 218), every provider's
  \<^verbatim>\<open>HealthCheck\<close> runs and the wait group is awaited (lines 219 to 229), the flag is
  cleared and the counter reset (lines 230 and 231). Each provider task changes its own
  provider only, so the order of the tasks does not show.
\<close>

definition healthCheck_start :: "GroupBase \<Rightarrow> GroupBase" where
  "healthCheck_start gb = gb\<lparr>failedTesting := True, sweeps := sweeps gb + 1\<rparr>"

definition healthCheck_providers :: "GroupBase \<Rightarrow> GroupBase" where
  "healthCheck_providers gb = gb\<lparr>providers := map HealthCheck (providers gb)\<rparr>"

definition healthCheck_finish :: "GroupBase \<Rightarrow> GroupBase" where
  "healthCheck_finish gb = gb\<lparr>failedTesting := False, failedTimes := 0\<rparr>"

definition healthCheck :: "GroupBase \<Rightarrow> GroupBase" where
  "healthCheck gb =
     (if failedTesting gb then gb
      else healthCheck_finish (healthCheck_providers (healthCheck_start gb)))"

text \<open>
  \<^verbatim>\<open>onDialFailed\<close> itself only starts a task (a \<^verbatim>\<open>go\<close> statement) and returns: the
  health check of line 186, or the counting task of lines 190 to 210. \<open>err\<close> is the text of
  \<^verbatim>\<open>err.Error()\<close>.
\<close>

datatype task = Task_healthCheck | Task_countFailed

definition onDialFailed :: "AdapterType \<Rightarrow> string \<Rightarrow> GroupBase \<Rightarrow> GroupBase \<times> task list" where
  "onDialFailed adapterType err gb =
     (if adapterType = C_Direct \<or> adapterType = C_Compatible \<or> adapterType = C_Reject \<or> adapterType = C_Pass
      then (gb, [])
      else if strings_Contains err ''connection refused'' then (gb, [Task_healthCheck])
      else (gb, [Task_countFailed]))"

text \<open>The body of the counting task, run under the lock; \<open>now\<close> is the clock when it runs.\<close>

definition count_failed :: "time \<Rightarrow> GroupBase \<Rightarrow> GroupBase" where
  "count_failed now gb =
     (let gb1 = gb\<lparr>failedTimes := failedTimes gb + 1\<rparr> in
      if failedTimes gb1 = 1 then gb1\<lparr>failedTime := now\<rparr>
      else if time_Since now (failedTime gb1) > failedTimeoutInterval then gb1\<lparr>failedTimes := 0\<rparr>
      else if failedTimes gb1 \<ge> maxFailedTimes then healthCheck gb1
      else gb1)"

fun run_task :: "time \<Rightarrow> task \<Rightarrow> GroupBase \<Rightarrow> GroupBase" where
  "run_task now Task_healthCheck gb = healthCheck gb"
| "run_task now Task_countFailed gb = count_failed now gb"

definition onDialSuccess :: "GroupBase \<Rightarrow> GroupBase" where
  "onDialSuccess gb = (if \<not> failedTesting gb then gb\<lparr>failedTimes := 0\<rparr> else gb)"

text \<open>
  A reported failure whose task runs to its end at once, at the clock reading \<open>at\<close>, and a
  sequence of such reports, one after the other.
\<close>

record failure =
  kind :: AdapterType
  err_text :: string
  at :: time

definition report_failure :: "failure \<Rightarrow> GroupBase \<Rightarrow> GroupBase" where
  "report_failure f gb =
     (let (gb', tasks) = onDialFailed (kind f) (err_text f) gb
      in foldl (\<lambda>g t. run_task (at f) t g) gb' tasks)"

definition report_failures :: "failure list \<Rightarrow> GroupBase \<Rightarrow> GroupBase" where
  "report_failures fs gb = foldl (\<lambda>g f. report_failure f g) gb fs"

subsection \<open>Notions used to state the properties\<close>

text \<open>The provider as \<^verbatim>\<open>GetProxies\<close> leaves it: touched when \<open>touch\<close> is set.\<close>

definition touched :: "bool \<Rightarrow> provider \<Rightarrow> provider" where
  "touched touch pd = (if touch then Touch pd else pd)"

text \<open>The invariant that \<^verbatim>\<open>NewGroupBase\<close> sets up: one cache slot and one version cell per
  provider.\<close>

definition wf_group :: "GroupBase \<Rightarrow> bool" where
  "wf_group gb \<longleftrightarrow>
     length (proxies gb) = length (providers gb) \<and> length (versions gb) = length (providers gb)"

text \<open>First-seen-wins de-duplication by name: a backend is kept when no earlier backend
  (and no name in \<open>seen\<close>) has its name.\<close>

fun first_seen_from :: "string set \<Rightarrow> proxy list \<Rightarrow> proxy list" where
  "first_seen_from seen [] = []"
| "first_seen_from seen (p # ps) =
     (if Name p \<in> seen then first_seen_from seen ps
      else p # first_seen_from (insert (Name p) seen) ps)"

definition first_seen :: "proxy list \<Rightarrow> proxy list" where
  "first_seen ps = first_seen_from {} ps"

definition matches_any :: "regexp list \<Rightarrow> string \<Rightarrow> bool" where
  "matches_any regs name = list_ex (\<lambda>r. FindStringMatch r name) regs"

definition matched_by :: "regexp \<Rightarrow> proxy list \<Rightarrow> proxy list" where
  "matched_by r ps = filter (\<lambda>p. FindStringMatch r (Name p)) ps"

text \<open>The backends matching each filter, filter after filter in declaration order.\<close>

definition matched :: "regexp list \<Rightarrow> proxy list \<Rightarrow> proxy list" where
  "matched regs ps = concat (map (\<lambda>r. matched_by r ps) regs)"

definition not_matched :: "regexp list \<Rightarrow> proxy list \<Rightarrow> proxy list" where
  "not_matched regs ps = filter (\<lambda>p. \<not> matches_any regs (Name p)) ps"

text \<open>
  The second pass in the words of the specification: the backends matching each filter, the
  filters in declaration order, first seen wins by name; then every backend matching no
  filter, in the original order.
\<close>

definition second_pass_spec :: "regexp list \<Rightarrow> proxy list \<Rightarrow> proxy list" where
  "second_pass_spec regs ps = first_seen (matched regs ps) @ not_matched regs ps"

text \<open>The second pass as the code runs it: the unmatched backends, too, are kept once per name.\<close>

definition second_pass :: "regexp list \<Rightarrow> proxy list \<Rightarrow> proxy list" where
  "second_pass regs ps = first_seen (matched regs ps) @ first_seen (not_matched regs ps)"

text \<open>The content of slot \<open>i\<close> once \<^verbatim>\<open>GetProxies\<close> has been through the providers.\<close>

definition slot_after :: "GroupBase \<Rightarrow> nat \<Rightarrow> proxy list" where
  "slot_after gb i =
     (let pd = providers gb ! i in
      if VehicleType pd = types_Compatible then Proxies pd
      else if versions gb ! i \<noteq> Version pd then filter_proxies (filterRegs gb) (Proxies pd)
      else proxies gb ! i)"

text \<open>The state after the loop over all providers, and after its first \<open>k\<close> rounds.\<close>

definition refreshed :: "bool \<Rightarrow> GroupBase \<Rightarrow> GroupBase" where
  "refreshed touch gb =
     gb\<lparr>providers := map (touched touch) (providers gb),
        versions := map Version (providers gb),
        proxies := map (slot_after gb) [0..<length (providers gb)]\<rparr>"

definition refreshed_upto :: "bool \<Rightarrow> nat \<Rightarrow> GroupBase \<Rightarrow> GroupBase" where
  "refreshed_upto touch k gb =
     gb\<lparr>providers := map (touched touch) (take k (providers gb)) @ drop k (providers gb),
        versions := map Version (take k (providers gb)) @ drop k (versions gb),
        proxies := map (slot_after gb) [0..<k] @ drop k (proxies gb)\<rparr>"

text \<open>The combined backend list of a call, before the fallback and the second pass.\<close>

definition combined :: "GroupBase \<Rightarrow> proxy list" where
  "combined gb =
     (if filterRegs gb = [] then concat (map Proxies (providers gb))
      else concat (map (slot_after gb) [0..<length (providers gb)]))"

text \<open>The combined list, or the fallback backend alone when it is empty.\<close>

definition base_list :: "(string \<Rightarrow> proxy) \<Rightarrow> GroupBase \<Rightarrow> proxy list" where
  "base_list tunnel_Proxies gb =
     (if combined gb = [] then [tunnel_Proxies ''COMPATIBLE''] else combined gb)"

definition state_after :: "bool \<Rightarrow> GroupBase \<Rightarrow> GroupBase" where
  "state_after touch gb =
     (if filterRegs gb = [] then gb\<lparr>providers := map (touched touch) (providers gb)\<rparr>
      else refreshed touch gb)"

text \<open>
  The invariant of the cache that every state reached from \<^verbatim>\<open>NewGroupBase\<close> satisfies: a
  slot of a provider that is not of the Compatible kind holds only backends that match a
  filter, each name once.
\<close>

definition slot_ok :: "regexp list \<Rightarrow> provider \<times> proxy list \<Rightarrow> bool" where
  "slot_ok regs c =
     (VehicleType (fst c) = types_Compatible \<or>
      (list_all (\<lambda>p. matches_any regs (Name p)) (snd c) \<and> distinct (map Name (snd c))))"

definition cache_inv :: "GroupBase \<Rightarrow> bool" where
  "cache_inv gb \<longleftrightarrow> wf_group gb \<and> list_all (slot_ok (filterRegs gb)) (zip (providers gb) (proxies gb))"

text \<open>
  A cache that agrees with its providers: a slot whose version cell holds the provider's
  present version is empty (never computed) or is the filtered list of the provider's present
  backends. The specification (section 6) has a provider change its version whenever its
  list changes, which keeps the cache in this condition.
\<close>

definition coherent_slot :: "GroupBase \<Rightarrow> nat \<Rightarrow> bool" where
  "coherent_slot gb i =
     (VehicleType (providers gb ! i) = types_Compatible \<or>
      versions gb ! i \<noteq> Version (providers gb ! i) \<or>
      proxies gb ! i = [] \<or>
      proxies gb ! i = filter_proxies (filterRegs gb) (Proxies (providers gb ! i)))"

definition coherent :: "GroupBase \<Rightarrow> bool" where
  "coherent gb \<longleftrightarrow> list_all (coherent_slot gb) [0..<length (providers gb)]"

text \<open>A step of the environment: the provider at index \<open>i\<close> changes its list and its version;
  its kind stays.\<close>

definition provider_changed :: "nat \<Rightarrow> proxy list \<Rightarrow> 32 word \<Rightarrow> GroupBase \<Rightarrow> GroupBase" where
  "provider_changed i ps v gb =
     gb\<lparr>providers := (providers gb)[i := (providers gb ! i)\<lparr>Proxies := ps, Version := v\<rparr>]\<rparr>"

text \<open>The backend kinds that \<^verbatim>\<open>onDialFailed\<close> counts, and the errors of a refused
  connection.\<close>

definition routable :: "AdapterType \<Rightarrow> bool" where
  "routable adapterType \<longleftrightarrow>
     \<not> (adapterType = C_Direct \<or> adapterType = C_Compatible \<or> adapterType = C_Reject \<or> adapterType = C_Pass)"

definition refused :: "string \<Rightarrow> bool" where
  "refused err \<longleftrightarrow> strings_Contains err ''connection refused''"

text \<open>What the counter may hold after \<open>j\<close> counted failures, the first of them at \<open>t\<close>, when no
  sweep has run since the state \<open>gb\<close>.\<close>

definition no_sweep_yet :: "GroupBase \<Rightarrow> time \<Rightarrow> int \<Rightarrow> GroupBase \<Rightarrow> bool" where
  "no_sweep_yet gb t j g \<longleftrightarrow>
     sweeps g = sweeps gb \<and> providers g = providers gb \<and> \<not> failedTesting g \<and>
     0 \<le> failedTimes g \<and> failedTimes g \<le> j \<and> (failedTimes g \<noteq> j \<or> failedTime g = t)"

subsection \<open>Concrete groups\<close>

text \<open>A pattern of plain letters matches the names that contain it.\<close>

definition literal :: "string \<Rightarrow> regexp" where
  "literal pat name = strings_Contains name pat"

definition compile_literal :: "string \<Rightarrow> regexp option" where
  "compile_literal pat = Some (literal pat)"

text \<open>A registry that holds, under each key, a backend of that name.\<close>

definition registry :: "string \<Rightarrow> proxy" where
  "registry key = \<lparr>Name = key, addr = 0\<rparr>"

definition hk1 :: proxy where
  "hk1 = \<lparr>Name = ''hk1'', addr = 1\<rparr>"

definition hk1_again :: proxy where
  "hk1_again = \<lparr>Name = ''hk1'', addr = 2\<rparr>"

definition jp1 :: proxy where
  "jp1 = \<lparr>Name = ''jp1'', addr = 3\<rparr>"

definition us1 :: proxy where
  "us1 = \<lparr>Name = ''us1'', addr = 4\<rparr>"

definition us1_again :: proxy where
  "us1_again = \<lparr>Name = ''us1'', addr = 5\<rparr>"

definition new_provider :: "VehicleType \<Rightarrow> 32 word \<Rightarrow> proxy list \<Rightarrow> provider" where
  "new_provider vt v ps = \<lparr>Proxies = ps, Version = v, VehicleType = vt, touches = 0, healthChecks = 0\<rparr>"

definition new_group :: "regexp list \<Rightarrow> provider list \<Rightarrow> GroupBase" where
  "new_group regs pds =
     \<lparr> filterRegs = regs, providers = pds, failedTimes = 0, failedTime = 0, failedTesting = False,
       proxies = replicate (length pds) [], versions = replicate (length pds) 0, sweeps = 0 \<rparr>"

text \<open>One filter and two subscription providers that both list a backend named hk1.\<close>

definition group_one_filter :: GroupBase where
  "group_one_filter =
     new_group [literal ''hk'']
       [new_provider types_HTTP 1 [hk1], new_provider types_HTTP 1 [hk1_again]]"

text \<open>One filter and one Compatible provider whose backend matches no filter.\<close>

definition group_compatible :: GroupBase where
  "group_compatible = new_group [literal ''hk''] [new_provider types_Compatible 0 [jp1]]"

text \<open>Two filters, a Compatible provider that lists two backends of the name us1, and a
  subscription provider.\<close>

definition group_cross :: GroupBase where
  "group_cross =
     new_group [literal ''hk'', literal ''jp'']
       [new_provider types_Compatible 0 [us1, us1_again], new_provider types_HTTP 1 [jp1, hk1]]"

text \<open>No filter and no provider.\<close>

definition group_empty :: GroupBase where
  "group_empty = new_group [] []"

text \<open>A group that has counted three failures, and the same group while a sweep is in flight.\<close>

definition group_failing :: GroupBase where
  "group_failing = group_cross\<lparr>failedTimes := 3\<rparr>"

definition group_testing :: GroupBase where
  "group_testing = healthCheck_start group_failing"

text \<open>A failure of a routable backend whose error is a timeout, reported at time \<open>t\<close>.\<close>

definition timeout_failure :: "time \<Rightarrow> failure" where
  "timeout_failure t = \<lparr>kind = C_Routed, err_text = ''dial tcp 10.0.0.1:443: i/o timeout'', at = t\<rparr>"

text \<open>Five failures one second apart, and five failures two and a half seconds apart.\<close>

definition failures_dense :: "failure list" where
  "failures_dense = map timeout_failure [0, 1000000000, 2000000000, 3000000000, 4000000000]"

definition failures_spread :: "failure list" where
  "failures_spread = map timeout_failure [0, 2500000000, 5000000000, 7500000000, 10000000000]"

text \<open>Two filters and two providers that hold nothing.\<close>

definition group_nothing :: GroupBase where
  "group_nothing =
     new_group [literal ''hk'', literal ''jp'']
       [new_provider types_Compatible 0 [], new_provider types_HTTP 1 []]"

text \<open>One filter and one subscription provider that lists the name hk1 twice.\<close>

definition group_single :: GroupBase where
  "group_single = new_group [literal ''hk''] [new_provider types_HTTP 1 [hk1, jp1, hk1_again]]"

text \<open>No filter and one provider with three backends; probes that the backend jp1 fails, and
  probes that every backend fails.\<close>

definition group_three :: GroupBase where
  "group_three = new_group [] [new_provider types_HTTP 1 [hk1, jp1, us1]]"

definition probe_two :: "probe_task \<Rightarrow> 16 word option" where
  "probe_two t =
     (if Name (snd t) = ''hk1'' then Some 120 else if Name (snd t) = ''us1'' then Some 80 else None)"

definition probe_none :: "probe_task \<Rightarrow> 16 word option" where
  "probe_none t = None"

section \<open>GetProxies in closed form\<close>

lemma first_seen_from_append:
  "first_seen_from S (xs @ ys) = first_seen_from S xs @ first_seen_from (S \<union> Name ` set xs) ys"
  by (induction xs arbitrary: S) (auto simp: insert_absorb)

lemma filter_inner_eq:
  "filter_inner r ps (S, acc) =
     (S \<union> Name ` set (matched_by r ps), acc @ first_seen_from S (matched_by r ps))"
  by (induction ps arbitrary: S acc) (auto simp: matched_by_def Let_def insert_absorb)

lemma filter_outer_eq:
  "filter_outer regs ps (S, acc) =
     (S \<union> Name ` set (matched regs ps), acc @ first_seen_from S (matched regs ps))"
proof (induction regs arbitrary: S acc)
  case Nil
  show ?case by (simp add: matched_def)
next
  case (Cons r regs)
  have m: "matched (r # regs) ps = matched_by r ps @ matched regs ps"
    by (simp add: matched_def)
  show ?case
    by (simp add: filter_inner_eq Cons.IH m first_seen_from_append Un_assoc image_Un)
qed

lemma add_not_matched_eq:
  "add_not_matched ps (S, acc) = (S \<union> Name ` set ps, acc @ first_seen_from S ps)"
  by (induction ps arbitrary: S acc) (auto simp: Let_def insert_absorb)

lemma first_seen_from_filter:
  "first_seen_from (S \<union> T) ps = first_seen_from T (filter (\<lambda>p. Name p \<notin> S) ps)"
  by (induction ps arbitrary: T) (auto simp flip: Un_insert_right)

lemma filter_proxies_eq: "filter_proxies regs ps = first_seen (matched regs ps)"
  by (simp add: filter_proxies_def filter_outer_eq first_seen_def)

lemma names_matched:
  "Name ` set (matched regs ps) = {n. n \<in> Name ` set ps \<and> matches_any regs n}"
  by (auto simp: matched_def matched_by_def matches_any_def list_ex_iff)

lemma cross_pass_eq:
  "cross_pass regs ps =
     first_seen (matched regs ps) @ first_seen (filter (\<lambda>p. \<not> matches_any regs (Name p)) ps)"
proof -
  have "first_seen_from (Name ` set (matched regs ps)) ps
      = first_seen_from {} (filter (\<lambda>p. Name p \<notin> Name ` set (matched regs ps)) ps)"
    using first_seen_from_filter [of "Name ` set (matched regs ps)" "{}" ps] by simp
  also have "filter (\<lambda>p. Name p \<notin> Name ` set (matched regs ps)) ps
      = filter (\<lambda>p. \<not> matches_any regs (Name p)) ps"
    by (rule filter_cong) (auto simp: names_matched)
  finally show ?thesis
    by (simp add: cross_pass_def filter_outer_eq add_not_matched_eq first_seen_def)
qed

lemma names_first_seen_from: "Name ` set (first_seen_from S ps) = Name ` set ps - S"
  by (induction ps arbitrary: S) auto

lemma distinct_first_seen_from: "distinct (map Name (first_seen_from S ps))"
  by (induction ps arbitrary: S) (auto simp: names_first_seen_from)

lemma set_first_seen_from: "set (first_seen_from S ps) \<subseteq> set ps"
  by (induction ps arbitrary: S) auto

lemma subseq_first_seen_from: "subseq (first_seen_from S ps) ps"
  by (induction ps arbitrary: S) auto

lemma first_seen_from_distinct:
  "distinct (map Name ps) \<Longrightarrow> Name ` set ps \<inter> S = {} \<Longrightarrow> first_seen_from S ps = ps"
  by (induction ps arbitrary: S) auto

subsection \<open>The loop over the providers\<close>

lemma touched_simps [simp]:
  "Proxies (touched touch pd) = Proxies pd"
  "Version (touched touch pd) = Version pd"
  "VehicleType (touched touch pd) = VehicleType pd"
  by (simp_all add: touched_def Touch_def)

lemma append_drop_update:
  "length xs = k \<Longrightarrow> k < length ys \<Longrightarrow> (xs @ drop k ys)[k := v] = (xs @ [v]) @ drop (Suc k) ys"
  by (simp add: list_update_append Cons_nth_drop_Suc [symmetric])

lemma refresh_slot_upto:
  assumes wf: "wf_group gb" and k: "k < length (providers gb)"
  shows "refresh_slot touch k (refreshed_upto touch k gb) = Some (refreshed_upto touch (Suc k) gb)"
proof -
  let ?g = "refreshed_upto touch k gb"
  let ?n = "length (providers gb)"
  from wf have lv: "length (versions gb) = ?n" and lp: "length (proxies gb) = ?n"
    by (simp_all add: wf_group_def)
  have pk: "providers ?g ! k = providers gb ! k"
    using k by (simp add: refreshed_upto_def nth_append)
  have vk: "versions ?g ! k = versions gb ! k"
    using k lv by (simp add: refreshed_upto_def nth_append)
  have xk: "proxies ?g ! k = proxies gb ! k"
    using k lp by (simp add: refreshed_upto_def nth_append)
  have lens: "length (providers ?g) = ?n" "length (versions ?g) = ?n" "length (proxies ?g) = ?n"
    using k lv lp by (simp_all add: refreshed_upto_def)
  have P: "(providers ?g)[k := touched touch (providers gb ! k)] = providers (refreshed_upto touch (Suc k) gb)"
    using k by (simp add: refreshed_upto_def append_drop_update take_Suc_conv_app_nth)
  have V: "(versions ?g)[k := Version (providers gb ! k)] = versions (refreshed_upto touch (Suc k) gb)"
    using k lv by (simp add: refreshed_upto_def append_drop_update take_Suc_conv_app_nth)
  have X: "(proxies ?g)[k := slot_after gb k] = proxies (refreshed_upto touch (Suc k) gb)"
    using k lp by (simp add: refreshed_upto_def append_drop_update)
  have Vid: "versions gb ! k = Version (providers gb ! k) \<Longrightarrow>
      versions ?g = (versions ?g)[k := Version (providers gb ! k)]"
    using vk by (metis list_update_id)
  have Xid: "VehicleType (providers gb ! k) \<noteq> types_Compatible \<Longrightarrow> versions gb ! k = Version (providers gb ! k) \<Longrightarrow>
      proxies ?g = (proxies ?g)[k := slot_after gb k]"
    using xk by (simp add: slot_after_def) (metis list_update_id)
  have R: "refreshed_upto touch (Suc k) gb =
      ?g\<lparr>providers := providers (refreshed_upto touch (Suc k) gb),
          versions := versions (refreshed_upto touch (Suc k) gb),
          proxies := proxies (refreshed_upto touch (Suc k) gb)\<rparr>"
    by (simp add: refreshed_upto_def)
  have F: "filterRegs ?g = filterRegs gb" by (simp add: refreshed_upto_def)
  show ?thesis
  proof (cases "VehicleType (providers gb ! k) = types_Compatible")
    case True
    have "refresh_slot touch k ?g =
       Some (?g\<lparr>providers := (providers ?g)[k := touched touch (providers gb ! k)],
                versions := (versions ?g)[k := Version (providers gb ! k)],
                proxies := (proxies ?g)[k := slot_after gb k]\<rparr>)"
      using True k lens pk by (simp add: refresh_slot_def Let_def touched_def [symmetric] slot_after_def)
    then show ?thesis using R by (simp only: P V X)
  next
    case False
    show ?thesis
    proof (cases "versions gb ! k = Version (providers gb ! k)")
      case True
      have "refresh_slot touch k ?g = Some (?g\<lparr>providers := (providers ?g)[k := touched touch (providers gb ! k)]\<rparr>)"
        using False True k lens pk vk by (simp add: refresh_slot_def Let_def touched_def [symmetric])
      also have "?g\<lparr>providers := (providers ?g)[k := touched touch (providers gb ! k)]\<rparr> =
          ?g\<lparr>providers := (providers ?g)[k := touched touch (providers gb ! k)],
                versions := (versions ?g)[k := Version (providers gb ! k)],
                proxies := (proxies ?g)[k := slot_after gb k]\<rparr>"
        using Vid [OF True] Xid [OF False True] by simp
      finally show ?thesis using R by (simp only: P V X)
    next
      case ne: False
      have "refresh_slot touch k ?g =
         Some (?g\<lparr>providers := (providers ?g)[k := touched touch (providers gb ! k)],
                  versions := (versions ?g)[k := Version (providers gb ! k)],
                  proxies := (proxies ?g)[k := slot_after gb k]\<rparr>)"
        using False ne k lens pk vk F by (simp add: refresh_slot_def Let_def touched_def [symmetric] slot_after_def)
      then show ?thesis using R by (simp only: P V X)
    qed
  qed
qed

lemma refresh_slots_upto:
  assumes wf: "wf_group gb"
  shows "k \<le> length (providers gb) \<Longrightarrow>
     refresh_slots touch [k..<length (providers gb)] (refreshed_upto touch k gb)
       = Some (refreshed_upto touch (length (providers gb)) gb)"
proof (induction "length (providers gb) - k" arbitrary: k)
  case 0
  then show ?case by simp
next
  case (Suc d)
  then have k: "k < length (providers gb)" by simp
  have "refresh_slots touch [Suc k..<length (providers gb)] (refreshed_upto touch (Suc k) gb)
       = Some (refreshed_upto touch (length (providers gb)) gb)"
    using Suc k by (intro Suc.hyps) simp_all
  then show ?case
    using k by (simp add: upt_conv_Cons refresh_slot_upto [OF wf k])
qed

lemma refresh_slots_refreshed:
  assumes wf: "wf_group gb"
  shows "refresh_slots touch [0..<length (providers gb)] gb = Some (refreshed touch gb)"
proof -
  have a: "refreshed_upto touch 0 gb = gb" by (simp add: refreshed_upto_def)
  have b: "refreshed_upto touch (length (providers gb)) gb = refreshed touch gb"
    using wf by (simp add: refreshed_upto_def refreshed_def wf_group_def)
  show ?thesis using refresh_slots_upto [OF wf, of 0 touch] by (simp add: a b)
qed

lemma collect_all_eq:
  "collect_all touch pds acc = (map (touched touch) pds, acc @ concat (map Proxies pds))"
  by (induction pds arbitrary: acc) (auto simp: touched_def Touch_def)

lemma first_seen_from_same:
  "set xs \<subseteq> {p} \<Longrightarrow> first_seen_from S xs = (if xs = [] \<or> Name p \<in> S then [] else [p])"
  by (induction xs arbitrary: S) auto

lemma cross_pass_single: "cross_pass regs [p] = [p]"
proof (cases "matches_any regs (Name p)")
  case True
  then have ne: "matched regs [p] \<noteq> []"
    by (auto simp: matched_def matched_by_def matches_any_def list_ex_iff)
  have "set (matched regs [p]) \<subseteq> {p}"
    by (auto simp: matched_def matched_by_def)
  then have "first_seen (matched regs [p]) = [p]"
    using ne by (simp add: first_seen_def first_seen_from_same)
  then show ?thesis using True by (simp add: cross_pass_eq first_seen_from.simps(1) [of "{}", folded first_seen_def])
next
  case False
  then have "matched regs [p] = []"
    by (auto simp: matched_def matched_by_def matches_any_def list_ex_iff)
  then show ?thesis using False by (simp add: cross_pass_eq first_seen_def)
qed

lemma proxies_refreshed: "concat (proxies (refreshed touch gb)) = concat (map (slot_after gb) [0..<length (providers gb)])"
  by (simp add: refreshed_def)

lemma GetProxies_eq:
  assumes wf: "wf_group gb"
  shows "GetProxies tp touch gb =
     Some (if length (providers gb) > 1 \<and> length (filterRegs gb) > 1
           then cross_pass (filterRegs gb) (base_list tp gb)
           else base_list tp gb,
           state_after touch gb)"
proof (cases "filterRegs gb = []")
  case True
  then show ?thesis
    by (simp add: GetProxies_def collect_all_eq base_list_def combined_def state_after_def Let_def)
next
  case False
  have r: "refresh_slots touch [0..<length (providers gb)] gb = Some (refreshed touch gb)"
    by (rule refresh_slots_refreshed [OF wf])
  have f: "filterRegs (refreshed touch gb) = filterRegs gb"
     and n: "length (providers (refreshed touch gb)) = length (providers gb)"
    by (simp_all add: refreshed_def)
  have c: "concat (proxies (refreshed touch gb)) = combined gb"
    using False by (simp add: combined_def refreshed_def)
  show ?thesis
    using False
    by (simp add: GetProxies_def r Let_def f n c base_list_def state_after_def cross_pass_single)
qed

section \<open>The failure counter and the health-check sweep\<close>

text \<open>
  C9: \<^verbatim>\<open>onDialSuccess\<close> sets the failure counter to zero, and changes nothing else, when no
  sweep is in flight; it leaves the whole state, the counter included, as it is when a sweep
  is in flight.
\<close>

theorem onDialSuccess_resets_unless_testing:
  "(\<not> failedTesting gb \<longrightarrow> failedTimes (onDialSuccess gb) = 0 \<and> onDialSuccess gb = gb\<lparr>failedTimes := 0\<rparr>) \<and>
   (failedTesting gb \<longrightarrow> failedTimes (onDialSuccess gb) = failedTimes gb \<and> onDialSuccess gb = gb)"
  by (simp add: onDialSuccess_def)

text \<open>A success reported to a group that has counted three failures, idle and with a sweep in flight.\<close>

theorem onDialSuccess_resets_unless_testing_witness:
  "\<not> failedTesting group_failing \<and> failedTimes group_failing = 3 \<and>
   failedTimes (onDialSuccess group_failing) = 0 \<and>
   failedTesting group_testing \<and> failedTimes (onDialSuccess group_testing) = 3"
  using onDialSuccess_resets_unless_testing [of group_failing]
    onDialSuccess_resets_unless_testing [of group_testing]
  by (simp add: group_failing_def group_testing_def healthCheck_start_def group_cross_def new_group_def)

text \<open>
  C7: entered with the flag set, \<^verbatim>\<open>healthCheck\<close> returns the state unchanged, so no provider's
  health check has run. Entered with the flag clear, it sets the flag, which stays set while
  the providers are checked, runs the health check of every provider exactly once, and ends
  with the flag clear and the failure counter at zero.
\<close>

theorem healthCheck_single_flight:
  "(failedTesting gb \<longrightarrow> healthCheck gb = gb) \<and>
   (\<not> failedTesting gb \<longrightarrow>
      healthCheck gb = healthCheck_finish (healthCheck_providers (healthCheck_start gb)) \<and>
      failedTesting (healthCheck_start gb) \<and>
      failedTesting (healthCheck_providers (healthCheck_start gb)) \<and>
      providers (healthCheck gb) = map HealthCheck (providers gb) \<and>
      (\<forall>i < length (providers gb).
         healthChecks (providers (healthCheck gb) ! i) = healthChecks (providers gb ! i) + 1) \<and>
      \<not> failedTesting (healthCheck gb) \<and>
      failedTimes (healthCheck gb) = 0 \<and>
      sweeps (healthCheck gb) = sweeps gb + 1)"
  by (simp add: healthCheck_def healthCheck_finish_def healthCheck_providers_def
      healthCheck_start_def HealthCheck_def)

text \<open>A sweep in flight, and a sweep over the two providers of an idle group.\<close>

theorem healthCheck_single_flight_witness:
  "failedTesting group_testing \<and> healthCheck group_testing = group_testing \<and>
   \<not> failedTesting group_failing \<and>
   map healthChecks (providers group_failing) = [0, 0] \<and>
   map healthChecks (providers (healthCheck group_failing)) = [1, 1] \<and>
   \<not> failedTesting (healthCheck group_failing) \<and>
   failedTimes (healthCheck group_failing) = 0"
proof -
  have a: "failedTesting group_testing"
    by (simp add: group_testing_def healthCheck_start_def)
  have b: "\<not> failedTesting group_failing"
    by (simp add: group_failing_def group_cross_def new_group_def)
  have c: "map healthChecks (providers group_failing) = [0, 0]"
    by (simp add: group_failing_def group_cross_def new_group_def new_provider_def)
  have d: "map healthChecks (map HealthCheck (providers group_failing)) = [1, 1]"
    by (simp add: group_failing_def group_cross_def new_group_def new_provider_def HealthCheck_def)
  from healthCheck_single_flight [of group_testing] a
  have e: "healthCheck group_testing = group_testing" by blast
  from healthCheck_single_flight [of group_failing] b
  have f: "providers (healthCheck group_failing) = map HealthCheck (providers group_failing)"
    and g: "\<not> failedTesting (healthCheck group_failing)"
    and h: "failedTimes (healthCheck group_failing) = 0"
    by blast+
  show ?thesis
    using a b c d e g h by (simp add: f)
qed

text \<open>
  C5: for a routable backend kind and an error that reports a refused connection,
  \<^verbatim>\<open>onDialFailed\<close> starts the health check, whatever the failure counter holds, and itself
  leaves the state, the counter included, unchanged. The health check so started resets the
  counter once its sweep is over and leaves it alone when another sweep is in flight; in no
  case is the counter incremented.
\<close>

theorem onDialFailed_refused:
  assumes "routable adapterType" and "refused err"
  shows "(\<forall>n. onDialFailed adapterType err (gb\<lparr>failedTimes := n\<rparr>)
            = (gb\<lparr>failedTimes := n\<rparr>, [Task_healthCheck])) \<and>
         onDialFailed adapterType err gb = (gb, [Task_healthCheck]) \<and>
         failedTimes (fst (onDialFailed adapterType err gb)) = failedTimes gb \<and>
         report_failure \<lparr>kind = adapterType, err_text = err, at = now\<rparr> gb = healthCheck gb \<and>
         failedTimes (healthCheck gb) = (if failedTesting gb then failedTimes gb else 0) \<and>
         sweeps (healthCheck gb) = (if failedTesting gb then sweeps gb else sweeps gb + 1)"
  using assms
  by (simp add: onDialFailed_def routable_def refused_def report_failure_def healthCheck_def
      healthCheck_finish_def healthCheck_providers_def healthCheck_start_def)

text \<open>A refused connection reported to a group that has counted three failures.\<close>

theorem onDialFailed_refused_witness:
  "routable C_Routed \<and> refused ''dial tcp 10.0.0.1:443: connect: connection refused'' \<and>
   onDialFailed C_Routed ''dial tcp 10.0.0.1:443: connect: connection refused'' group_failing
     = (group_failing, [Task_healthCheck]) \<and>
   failedTimes (fst (onDialFailed C_Routed ''dial tcp 10.0.0.1:443: connect: connection refused'' group_failing)) = 3"
proof -
  have r: "routable C_Routed" by (simp add: routable_def)
  have e: "refused ''dial tcp 10.0.0.1:443: connect: connection refused''"
    by (simp add: refused_def)
  have f: "failedTimes group_failing = 3" by (simp add: group_failing_def)
  show ?thesis
    using onDialFailed_refused [OF r e, of group_failing 0] r e f by simp
qed

section \<open>Failure escalation\<close>

lemma time_Since_exceeds:
  "time_Since now t > failedTimeoutInterval \<longleftrightarrow> now - t > 5 * time_Second"
  by (simp add: time_Since_def time_Sub_def failedTimeoutInterval_def time_Second_def Let_def)

lemma report_failure_counted:
  "routable (kind f) \<Longrightarrow> \<not> refused (err_text f) \<Longrightarrow> report_failure f gb = count_failed (at f) gb"
  by (simp add: report_failure_def onDialFailed_def routable_def refused_def)

lemma count_failed_first:
  "failedTimes gb = 0 \<Longrightarrow> count_failed now gb = gb\<lparr>failedTimes := 1, failedTime := now\<rparr>"
  by (simp add: count_failed_def)

lemma count_failed_late:
  "failedTimes gb \<noteq> 0 \<Longrightarrow> now - failedTime gb > 5 * time_Second \<Longrightarrow>
     count_failed now gb = gb\<lparr>failedTimes := 0\<rparr>"
  by (simp add: count_failed_def time_Since_exceeds)

lemma count_failed_within:
  "failedTimes gb \<noteq> 0 \<Longrightarrow> now - failedTime gb \<le> 5 * time_Second \<Longrightarrow> failedTimes gb + 1 < 5 \<Longrightarrow>
     count_failed now gb = gb\<lparr>failedTimes := failedTimes gb + 1\<rparr>"
  by (simp add: count_failed_def time_Since_exceeds maxFailedTimes_def)

lemma count_failed_escalates:
  "failedTimes gb \<noteq> 0 \<Longrightarrow> now - failedTime gb \<le> 5 * time_Second \<Longrightarrow> failedTimes gb + 1 \<ge> 5 \<Longrightarrow>
     count_failed now gb = healthCheck (gb\<lparr>failedTimes := failedTimes gb + 1\<rparr>)"
  by (simp add: count_failed_def time_Since_exceeds maxFailedTimes_def)

lemma report_failures_Cons: "report_failures (f # fs) gb = report_failures fs (report_failure f gb)"
  by (simp add: report_failures_def)

lemma report_failures_snoc: "report_failures (fs @ [f]) gb = report_failure f (report_failures fs gb)"
  by (simp add: report_failures_def)

lemma report_failures_dense:
  assumes "\<forall>f \<in> set fs. routable (kind f) \<and> \<not> refused (err_text f) \<and> at f - failedTime g \<le> 5 * time_Second"
    and "1 \<le> failedTimes g" and "failedTimes g + int (length fs) < 5"
  shows "report_failures fs g = g\<lparr>failedTimes := failedTimes g + int (length fs)\<rparr>"
  using assms
proof (induction fs arbitrary: g)
  case Nil
  show ?case by (simp add: report_failures_def)
next
  case (Cons f fs)
  let ?g = "g\<lparr>failedTimes := failedTimes g + 1\<rparr>"
  have step: "report_failure f g = ?g"
    using Cons.prems by (simp add: report_failure_counted count_failed_within)
  have "report_failures fs ?g = ?g\<lparr>failedTimes := failedTimes ?g + int (length fs)\<rparr>"
    using Cons.prems by (intro Cons.IH) simp_all
  then show ?case
    by (simp add: report_failures_Cons step add.assoc)
qed

lemma report_failures_dense_start:
  assumes "\<forall>f \<in> set (f0 # fs). routable (kind f) \<and> \<not> refused (err_text f) \<and> at f - at f0 \<le> 5 * time_Second"
    and "failedTimes gb = 0" and "length fs < 4"
  shows "report_failures (f0 # fs) gb = gb\<lparr>failedTimes := 1 + int (length fs), failedTime := at f0\<rparr>"
proof -
  let ?g = "gb\<lparr>failedTimes := 1, failedTime := at f0\<rparr>"
  have first: "report_failure f0 gb = ?g"
    using assms by (simp add: report_failure_counted count_failed_first)
  have "report_failures fs ?g = ?g\<lparr>failedTimes := failedTimes ?g + int (length fs)\<rparr>"
    using assms by (intro report_failures_dense) simp_all
  then show ?thesis
    by (simp add: report_failures_Cons first)
qed

lemma no_sweep_yet_step:
  assumes inv: "no_sweep_yet gb t j g" and j: "1 \<le> j" "j < 4"
    and f: "routable (kind f)" "\<not> refused (err_text f)"
  shows "no_sweep_yet gb t (j + 1) (report_failure f g)"
proof -
  consider (zero) "failedTimes g = 0"
    | (late) "failedTimes g \<noteq> 0" "at f - failedTime g > 5 * time_Second"
    | (within) "failedTimes g \<noteq> 0" "at f - failedTime g \<le> 5 * time_Second"
    by linarith
  then show ?thesis
  proof cases
    case zero
    then show ?thesis
      using inv j f by (simp add: report_failure_counted count_failed_first no_sweep_yet_def)
  next
    case late
    then show ?thesis
      using inv j f by (simp add: report_failure_counted count_failed_late no_sweep_yet_def)
  next
    case within
    moreover have "failedTimes g + 1 < 5" using inv j by (simp add: no_sweep_yet_def)
    ultimately show ?thesis
      using inv j f by (auto simp: report_failure_counted count_failed_within no_sweep_yet_def)
  qed
qed

lemma no_sweep_yet_run:
  assumes "\<forall>f \<in> set fs. routable (kind f) \<and> \<not> refused (err_text f)"
    and "no_sweep_yet gb t j g" and "1 \<le> j" and "j + int (length fs) \<le> 4"
  shows "no_sweep_yet gb t (j + int (length fs)) (report_failures fs g)"
  using assms
proof (induction fs arbitrary: g j)
  case Nil
  then show ?case by (simp add: report_failures_def)
next
  case (Cons f fs)
  have "no_sweep_yet gb t (j + 1) (report_failure f g)"
    using Cons.prems by (intro no_sweep_yet_step) simp_all
  then have "no_sweep_yet gb t (j + 1 + int (length fs)) (report_failures fs (report_failure f g))"
    using Cons.prems by (intro Cons.IH) simp_all
  then show ?case
    by (simp add: report_failures_Cons ac_simps)
qed

lemma no_sweep_yet_start:
  assumes "\<forall>f \<in> set (f0 # fs). routable (kind f) \<and> \<not> refused (err_text f)"
    and "failedTimes gb = 0" and "\<not> failedTesting gb" and "length fs < 4"
  shows "no_sweep_yet gb (at f0) (1 + int (length fs)) (report_failures (f0 # fs) gb)"
proof -
  let ?g = "gb\<lparr>failedTimes := 1, failedTime := at f0\<rparr>"
  have first: "report_failure f0 gb = ?g"
    using assms by (simp add: report_failure_counted count_failed_first)
  have "no_sweep_yet gb (at f0) 1 ?g"
    using assms by (simp add: no_sweep_yet_def)
  then have "no_sweep_yet gb (at f0) (1 + int (length fs)) (report_failures fs ?g)"
    using assms by (intro no_sweep_yet_run) simp_all
  then show ?thesis by (simp add: report_failures_Cons first)
qed

lemma no_sweep_yet_last:
  assumes inv: "no_sweep_yet gb t 4 g"
    and f: "routable (kind f)" "\<not> refused (err_text f)" and late: "at f - t > 5 * time_Second"
  shows "sweeps (report_failure f g) = sweeps gb \<and> providers (report_failure f g) = providers gb"
proof -
  consider (zero) "failedTimes g = 0"
    | (late) "failedTimes g \<noteq> 0" "at f - failedTime g > 5 * time_Second"
    | (within) "failedTimes g \<noteq> 0" "at f - failedTime g \<le> 5 * time_Second"
    by linarith
  then show ?thesis
  proof cases
    case zero
    then show ?thesis
      using inv f by (simp add: report_failure_counted count_failed_first no_sweep_yet_def)
  next
    case late
    then show ?thesis
      using inv f by (simp add: report_failure_counted count_failed_late no_sweep_yet_def)
  next
    case within
    with inv late have "failedTimes g \<noteq> 4" by (auto simp: no_sweep_yet_def)
    with inv have "failedTimes g + 1 < 5" by (simp add: no_sweep_yet_def)
    with within show ?thesis
      using inv f by (simp add: report_failure_counted count_failed_within no_sweep_yet_def)
  qed
qed


lemma split5: "length fs = 5 \<Longrightarrow> fs = take 4 fs @ [last fs]" for fs :: "'a list"
proof -
  assume len: "length fs = 5"
  then have "fs \<noteq> []" by auto
  then have "fs = butlast fs @ [last fs]" by simp
  moreover have "butlast fs = take 4 fs" using len by (simp add: butlast_conv_take)
  ultimately show ?thesis by simp
qed

lemma prefix_no_sweep:
  assumes good: "\<forall>f \<in> set fs. routable (kind f) \<and> \<not> refused (err_text f)"
    and zero: "failedTimes gb = 0" and idle: "\<not> failedTesting gb"
    and k: "k \<le> 4" and ne: "fs \<noteq> []"
  shows "sweeps (report_failures (take k fs) gb) = sweeps gb \<and>
         providers (report_failures (take k fs) gb) = providers gb \<and>
         (0 < k \<and> length fs \<ge> k \<longrightarrow> no_sweep_yet gb (at (hd fs)) (int k) (report_failures (take k fs) gb))"
proof (cases k)
  case 0
  then show ?thesis by (simp add: report_failures_def)
next
  case (Suc m)
  from ne obtain f0 rest where fs: "fs = f0 # rest" by (cases fs) auto
  have t: "take k fs = f0 # take m rest" by (simp add: fs Suc)
  have g: "\<forall>f \<in> set (f0 # take m rest). routable (kind f) \<and> \<not> refused (err_text f)"
    using good by (auto simp: fs dest: in_set_takeD)
  have l: "length (take m rest) < 4" using k Suc by simp
  have inv: "no_sweep_yet gb (at f0) (1 + int (length (take m rest))) (report_failures (f0 # take m rest) gb)"
    by (rule no_sweep_yet_start [OF g zero idle l])
  have c: "length fs \<ge> k \<Longrightarrow> 1 + int (length (take m rest)) = int k"
    by (simp add: fs Suc)
  have h: "hd fs = f0" by (simp add: fs)
  from inv have "sweeps (report_failures (take k fs) gb) = sweeps gb"
    and "providers (report_failures (take k fs) gb) = providers gb"
    by (simp_all add: t no_sweep_yet_def)
  moreover have "length fs \<ge> k \<Longrightarrow> no_sweep_yet gb (at (hd fs)) (int k) (report_failures (take k fs) gb)"
    using inv c by (simp only: t h)
  ultimately show ?thesis by blast
qed

text \<open>
  C4: take five reported failures of a routable backend kind whose errors do not report a
  refused connection, the task of each run at the time of its report, on a group whose counter
  is zero and that has no sweep in flight. The threshold is 5 and the window 5 seconds. If all
  five come within 4 seconds of the first, exactly one sweep runs, at the fifth report. If the
  last comes more than 5 seconds after the first (so also 10 seconds after), no sweep runs at
  any point. And the first report that comes more than 5 seconds after the first failure finds
  the counter at the number of reports before it and sets it to zero.
\<close>

theorem failure_escalation:
  assumes len: "length fs = 5"
    and good: "\<forall>f \<in> set fs. routable (kind f) \<and> \<not> refused (err_text f)"
    and zero: "failedTimes gb = 0" and idle: "\<not> failedTesting gb"
  shows "((\<forall>f \<in> set fs. at f - at (hd fs) \<le> 4 * time_Second) \<longrightarrow>
            (\<forall>k < 5. sweeps (report_failures (take k fs) gb) = sweeps gb) \<and>
            sweeps (report_failures fs gb) = sweeps gb + 1 \<and>
            providers (report_failures fs gb) = map HealthCheck (providers gb) \<and>
            failedTimes (report_failures fs gb) = 0) \<and>
         (at (last fs) - at (hd fs) > 5 * time_Second \<longrightarrow>
            (\<forall>k \<le> 5. sweeps (report_failures (take k fs) gb) = sweeps gb) \<and>
            providers (report_failures fs gb) = providers gb) \<and>
         (\<forall>k. 0 < k \<and> k < 5 \<and> at (fs ! k) - at (hd fs) > 5 * time_Second \<and>
               (\<forall>j < k. at (fs ! j) - at (hd fs) \<le> 5 * time_Second) \<longrightarrow>
            failedTimes (report_failures (take k fs) gb) = int k \<and>
            failedTimes (report_failures (take (Suc k) fs) gb) = 0)"
proof -
  from len have ne: "fs \<noteq> []" by auto
  then obtain f0 rest where fs: "fs = f0 # rest" by (cases fs) auto
  have lrest: "length rest = 4" using len fs by simp
  have split: "fs = take 4 fs @ [last fs]"
    by (rule split5 [OF len])
  have lastgood: "routable (kind (last fs))" "\<not> refused (err_text (last fs))"
    using good ne by auto
  have pre: "\<And>k. k \<le> 4 \<Longrightarrow> sweeps (report_failures (take k fs) gb) = sweeps gb"
    using prefix_no_sweep [OF good zero idle _ ne] by blast
  have dense: "\<And>k. 0 < k \<Longrightarrow> k \<le> 4 \<Longrightarrow> \<forall>j < k. at (fs ! j) - at (hd fs) \<le> 5 * time_Second \<Longrightarrow>
      report_failures (take k fs) gb = gb\<lparr>failedTimes := int k, failedTime := at f0\<rparr>"
  proof -
    fix k :: nat
    assume k: "0 < k" "k \<le> 4" and w: "\<forall>j < k. at (fs ! j) - at (hd fs) \<le> 5 * time_Second"
    from k obtain m where m: "k = Suc m" by (cases k) auto
    have t: "take k fs = f0 # take m rest" by (simp add: fs m)
    have "\<forall>f \<in> set (take k fs). at f - at f0 \<le> 5 * time_Second"
    proof
      fix f assume "f \<in> set (take k fs)"
      then obtain j where "j < length (take k fs)" "take k fs ! j = f"
        by (auto simp: in_set_conv_nth)
      then have "j < k" "fs ! j = f" by simp_all
      with w show "at f - at f0 \<le> 5 * time_Second" by (auto simp: fs)
    qed
    moreover have "\<forall>f \<in> set (take k fs). routable (kind f) \<and> \<not> refused (err_text f)"
      using good by (auto dest: in_set_takeD)
    ultimately have a: "\<forall>f \<in> set (f0 # take m rest).
        routable (kind f) \<and> \<not> refused (err_text f) \<and> at f - at f0 \<le> 5 * time_Second"
      by (simp add: t)
    have l: "length (take m rest) < 4" using k m by simp
    have "report_failures (f0 # take m rest) gb
        = gb\<lparr>failedTimes := 1 + int (length (take m rest)), failedTime := at f0\<rparr>"
      by (rule report_failures_dense_start [OF a zero l])
    moreover have "1 + int (length (take m rest)) = int k"
      using k m lrest by simp
    ultimately show "report_failures (take k fs) gb = gb\<lparr>failedTimes := int k, failedTime := at f0\<rparr>"
      by (simp add: t)
  qed
  have A: "(\<forall>f \<in> set fs. at f - at (hd fs) \<le> 4 * time_Second) \<longrightarrow>
            (\<forall>k < 5. sweeps (report_failures (take k fs) gb) = sweeps gb) \<and>
            sweeps (report_failures fs gb) = sweeps gb + 1 \<and>
            providers (report_failures fs gb) = map HealthCheck (providers gb) \<and>
            failedTimes (report_failures fs gb) = 0"
  proof
    assume w: "\<forall>f \<in> set fs. at f - at (hd fs) \<le> 4 * time_Second"
    have w5: "\<forall>j < 4. at (fs ! j) - at (hd fs) \<le> 5 * time_Second"
    proof (intro allI impI)
      fix j :: nat assume "j < 4"
      then have "fs ! j \<in> set fs" using len by simp
      with w have "at (fs ! j) - at (hd fs) \<le> 4 * time_Second" by blast
      then show "at (fs ! j) - at (hd fs) \<le> 5 * time_Second" by (simp add: time_Second_def)
    qed
    let ?g = "gb\<lparr>failedTimes := 4, failedTime := at f0\<rparr>"
    have four: "report_failures (take 4 fs) gb = ?g"
      using dense [of 4] w5 by simp
    have "last fs \<in> set fs" using ne by simp
    with w have "at (last fs) - at f0 \<le> 4 * time_Second" by (auto simp: fs)
    then have lw: "at (last fs) - failedTime ?g \<le> 5 * time_Second" by (simp add: time_Second_def)
    have "report_failures fs gb = report_failure (last fs) ?g"
      using split report_failures_snoc [of "take 4 fs" "last fs" gb] four by simp
    also have "\<dots> = healthCheck (?g\<lparr>failedTimes := failedTimes ?g + 1\<rparr>)"
      using lastgood lw by (simp add: report_failure_counted count_failed_escalates)
    finally have fin: "report_failures fs gb = healthCheck (?g\<lparr>failedTimes := failedTimes ?g + 1\<rparr>)" .
    have "\<forall>k < 5. sweeps (report_failures (take k fs) gb) = sweeps gb"
      using pre by simp
    then show "(\<forall>k < 5. sweeps (report_failures (take k fs) gb) = sweeps gb) \<and>
            sweeps (report_failures fs gb) = sweeps gb + 1 \<and>
            providers (report_failures fs gb) = map HealthCheck (providers gb) \<and>
            failedTimes (report_failures fs gb) = 0"
      using idle by (simp add: fin healthCheck_def healthCheck_finish_def healthCheck_providers_def
          healthCheck_start_def)
  qed
  have B: "at (last fs) - at (hd fs) > 5 * time_Second \<longrightarrow>
            (\<forall>k \<le> 5. sweeps (report_failures (take k fs) gb) = sweeps gb) \<and>
            providers (report_failures fs gb) = providers gb"
  proof
    assume late: "at (last fs) - at (hd fs) > 5 * time_Second"
    have inv: "no_sweep_yet gb (at (hd fs)) 4 (report_failures (take 4 fs) gb)"
      using prefix_no_sweep [OF good zero idle _ ne, of 4] len by simp
    have "report_failures fs gb = report_failure (last fs) (report_failures (take 4 fs) gb)"
      using split report_failures_snoc [of "take 4 fs" "last fs" gb] by simp
    then have full: "sweeps (report_failures fs gb) = sweeps gb \<and> providers (report_failures fs gb) = providers gb"
      using no_sweep_yet_last [OF inv lastgood late] by simp
    have "\<And>k. k \<le> 5 \<Longrightarrow> sweeps (report_failures (take k fs) gb) = sweeps gb"
    proof -
      fix k :: nat assume "k \<le> 5"
      then consider "k \<le> 4" | "k = 5" by linarith
      then show "sweeps (report_failures (take k fs) gb) = sweeps gb"
        using pre full len by cases simp_all
    qed
    with full show "(\<forall>k \<le> 5. sweeps (report_failures (take k fs) gb) = sweeps gb) \<and>
            providers (report_failures fs gb) = providers gb"
      by blast
  qed
  have C: "\<forall>k. 0 < k \<and> k < 5 \<and> at (fs ! k) - at (hd fs) > 5 * time_Second \<and>
               (\<forall>j < k. at (fs ! j) - at (hd fs) \<le> 5 * time_Second) \<longrightarrow>
            failedTimes (report_failures (take k fs) gb) = int k \<and>
            failedTimes (report_failures (take (Suc k) fs) gb) = 0"
  proof (intro allI impI)
    fix k :: nat
    assume h: "0 < k \<and> k < 5 \<and> at (fs ! k) - at (hd fs) > 5 * time_Second \<and>
               (\<forall>j < k. at (fs ! j) - at (hd fs) \<le> 5 * time_Second)"
    let ?g = "gb\<lparr>failedTimes := int k, failedTime := at f0\<rparr>"
    have pk: "report_failures (take k fs) gb = ?g"
      using dense [of k] h by simp
    have kg: "routable (kind (fs ! k))" "\<not> refused (err_text (fs ! k))"
      using good h len by simp_all
    have "take (Suc k) fs = take k fs @ [fs ! k]"
      using h len by (simp add: take_Suc_conv_app_nth)
    then have "report_failures (take (Suc k) fs) gb = report_failure (fs ! k) ?g"
      using report_failures_snoc [of "take k fs" "fs ! k" gb] pk by simp
    also have "\<dots> = ?g\<lparr>failedTimes := 0\<rparr>"
    proof -
      have "failedTimes ?g \<noteq> 0" using h by simp
      moreover have "hd fs = f0" by (simp add: fs)
      then have "at (fs ! k) - failedTime ?g > 5 * time_Second"
        using h by simp
      ultimately have "count_failed (at (fs ! k)) ?g = ?g\<lparr>failedTimes := 0\<rparr>"
        by (rule count_failed_late)
      then show ?thesis by (simp only: report_failure_counted [OF kg])
    qed
    finally show "failedTimes (report_failures (take k fs) gb) = int k \<and>
            failedTimes (report_failures (take (Suc k) fs) gb) = 0"
      using pk by simp
  qed
  from A B C show ?thesis by blast
qed


text \<open>Five failures one second apart trigger one sweep, at the fifth; of five failures two and a
  half seconds apart the fourth, 7.5 seconds after the first, resets the counter, and no sweep
  runs.\<close>

theorem failure_escalation_witness:
  "length failures_dense = 5 \<and> length failures_spread = 5 \<and>
   failedTimes group_cross = 0 \<and> \<not> failedTesting group_cross \<and> sweeps group_cross = 0 \<and>
   at (last failures_dense) - at (hd failures_dense) = 4 * time_Second \<and>
   sweeps (report_failures failures_dense group_cross) = 1 \<and>
   sweeps (report_failures (take 4 failures_dense) group_cross) = 0 \<and>
   at (last failures_spread) - at (hd failures_spread) = 10 * time_Second \<and>
   sweeps (report_failures failures_spread group_cross) = 0 \<and>
   failedTimes (report_failures (take 3 failures_spread) group_cross) = 3 \<and>
   failedTimes (report_failures (take 4 failures_spread) group_cross) = 0"
proof -
  have l1: "length failures_dense = 5" and l2: "length failures_spread = 5"
    by (simp_all add: failures_dense_def failures_spread_def)
  have r: "routable C_Routed" by (simp add: routable_def)
  have e: "\<not> refused ''dial tcp 10.0.0.1:443: i/o timeout''" by (simp add: refused_def)
  have g1: "\<forall>f \<in> set failures_dense. routable (kind f) \<and> \<not> refused (err_text f)"
    using r e by (simp add: failures_dense_def timeout_failure_def)
  have g2: "\<forall>f \<in> set failures_spread. routable (kind f) \<and> \<not> refused (err_text f)"
    using r e by (simp add: failures_spread_def timeout_failure_def)
  have z: "failedTimes group_cross = 0" and i: "\<not> failedTesting group_cross"
    and s: "sweeps group_cross = 0"
    by (simp_all add: group_cross_def new_group_def)
  have w1: "\<forall>f \<in> set failures_dense. at f - at (hd failures_dense) \<le> 4 * time_Second"
    by (simp add: failures_dense_def timeout_failure_def time_Second_def)
  have d1: "at (last failures_dense) - at (hd failures_dense) = 4 * time_Second"
    by (simp add: failures_dense_def timeout_failure_def time_Second_def)
  have d2: "at (last failures_spread) - at (hd failures_spread) = 10 * time_Second"
    by (simp add: failures_spread_def timeout_failure_def time_Second_def)
  have w2: "at (last failures_spread) - at (hd failures_spread) > 5 * time_Second"
    by (simp add: d2) (simp add: time_Second_def)
  have w3: "0 < (3::nat) \<and> (3::nat) < 5 \<and> at (failures_spread ! 3) - at (hd failures_spread) > 5 * time_Second \<and>
      (\<forall>j < 3. at (failures_spread ! j) - at (hd failures_spread) \<le> 5 * time_Second)"
    by (simp add: failures_spread_def timeout_failure_def time_Second_def less_Suc_eq eval_nat_numeral)
  note dense = failure_escalation [OF l1 g1 z i]
  note spread = failure_escalation [OF l2 g2 z i]
  from dense w1 have a: "sweeps (report_failures failures_dense group_cross) = sweeps group_cross + 1"
    and b: "\<forall>k < 5. sweeps (report_failures (take k failures_dense) group_cross) = sweeps group_cross"
    by blast+
  from b have b4: "sweeps (report_failures (take 4 failures_dense) group_cross) = sweeps group_cross"
    by simp
  from spread w2 have c: "\<forall>k \<le> 5. sweeps (report_failures (take k failures_spread) group_cross) = sweeps group_cross"
    by blast
  from c l2 have c5: "sweeps (report_failures failures_spread group_cross) = sweeps group_cross"
    by (metis order_refl take_all)
  from spread w3 have d: "failedTimes (report_failures (take 3 failures_spread) group_cross) = int 3"
    and f: "failedTimes (report_failures (take (Suc 3) failures_spread) group_cross) = 0"
    by blast+
  from f have f4: "failedTimes (report_failures (take 4 failures_spread) group_cross) = 0"
    by (simp add: eval_nat_numeral)
  show ?thesis
    using l1 l2 z i s d1 a b4 d2 c5 d f4 by simp
qed

section \<open>The result of GetProxies\<close>

lemma cross_pass_second_pass: "cross_pass regs ps = second_pass regs ps"
  by (simp add: cross_pass_eq second_pass_def not_matched_def)

lemma names_cross_pass: "Name ` set (cross_pass regs ps) = Name ` set ps"
proof -
  have sub: "Name ` set (matched regs ps) \<subseteq> Name ` set ps"
    by (auto simp: names_matched)
  have "Name ` set (cross_pass regs ps) =
      Name ` set (first_seen_from {} (matched regs ps)) \<union>
      Name ` set (first_seen_from (Name ` set (matched regs ps)) ps)"
    by (simp add: cross_pass_def filter_outer_eq add_not_matched_eq image_Un)
  also have "\<dots> = Name ` set (matched regs ps) \<union> (Name ` set ps - Name ` set (matched regs ps))"
    by (simp add: names_first_seen_from)
  also have "\<dots> = Name ` set ps" using sub by blast
  finally show ?thesis .
qed

lemma set_cross_pass: "set (cross_pass regs ps) \<subseteq> set ps"
proof -
  have "set (matched regs ps) \<subseteq> set ps"
    by (auto simp: matched_def matched_by_def)
  then show ?thesis
    using set_first_seen_from [of "{}" "matched regs ps"]
      set_first_seen_from [of "Name ` set (matched regs ps)" ps]
    by (auto simp: cross_pass_def filter_outer_eq add_not_matched_eq)
qed

lemma distinct_cross_pass: "distinct (map Name (cross_pass regs ps))"
  by (auto simp: cross_pass_def filter_outer_eq add_not_matched_eq distinct_first_seen_from
      names_first_seen_from)

lemma wf_new_group: "wf_group (new_group regs pds)"
  by (simp add: wf_group_def new_group_def)

lemma slot_after_in_combined:
  "filterRegs gb \<noteq> [] \<Longrightarrow> i < length (providers gb) \<Longrightarrow> set (slot_after gb i) \<subseteq> set (combined gb)"
  by (auto simp: combined_def)

lemma state_after_slot:
  "filterRegs gb \<noteq> [] \<Longrightarrow> i < length (providers gb) \<Longrightarrow>
     proxies (state_after touch gb) ! i = slot_after gb i \<and>
     versions (state_after touch gb) ! i = Version (providers gb ! i)"
  by (simp add: state_after_def refreshed_def)

text \<open>
  C3: the result of \<^verbatim>\<open>GetProxies\<close> is the combined list, or the fallback backend alone when
  that list is empty, and it goes through the second pass exactly when more than one provider
  and more than one filter are configured; otherwise it is returned as it is. The second pass
  lists the backends matching each filter, the filters in declaration order, the first backend
  of each name only, and then the backends matching no filter in their original order, again
  the first backend of each name only.
\<close>

theorem GetProxies_second_pass:
  assumes "wf_group gb"
  shows "GetProxies tunnel_Proxies touch gb =
     Some (if length (providers gb) > 1 \<and> length (filterRegs gb) > 1
           then second_pass (filterRegs gb) (base_list tunnel_Proxies gb)
           else base_list tunnel_Proxies gb,
           state_after touch gb)"
  using GetProxies_eq [OF assms] by (simp add: cross_pass_second_pass)

text \<open>The second pass at work on the group with two filters and two providers.\<close>

theorem GetProxies_second_pass_witness:
  "wf_group group_cross \<and> 1 < length (providers group_cross) \<and> 1 < length (filterRegs group_cross) \<and>
   base_list registry group_cross = [us1, us1_again, hk1, jp1] \<and>
   GetProxies registry False group_cross = Some ([hk1, jp1, us1], state_after False group_cross)"
proof -
  have w: "wf_group group_cross" by code_simp
  have n: "1 < length (providers group_cross) \<and> 1 < length (filterRegs group_cross)" by code_simp
  have b: "base_list registry group_cross = [us1, us1_again, hk1, jp1]" by code_simp
  have s: "second_pass (filterRegs group_cross) [us1, us1_again, hk1, jp1] = [hk1, jp1, us1]" by code_simp
  show ?thesis
    using GetProxies_second_pass [OF w, of registry False] w n b s by simp
qed

text \<open>With two backends of the name us1 that match no filter, the list in the words of the
  specification holds both of them and the result of the code only the first.\<close>

theorem GetProxies_second_pass_counterexample:
  "wf_group group_cross \<and> 1 < length (providers group_cross) \<and> 1 < length (filterRegs group_cross) \<and>
   base_list registry group_cross = [us1, us1_again, hk1, jp1] \<and>
   second_pass_spec (filterRegs group_cross) (base_list registry group_cross) = [hk1, jp1, us1, us1_again] \<and>
   map_option fst (GetProxies registry False group_cross) = Some [hk1, jp1, us1] \<and>
   \<not> matches_any (filterRegs group_cross) (Name us1_again) \<and>
   us1_again \<notin> set [hk1, jp1, us1]"
  by code_simp

lemma combined_slots:
  "filterRegs gb \<noteq> [] \<Longrightarrow> p \<in> set (combined gb) \<Longrightarrow>
     \<exists>i < length (providers gb). p \<in> set (slot_after gb i)"
  by (auto simp: combined_def)

lemma matched_matches: "p \<in> set (matched regs ps) \<Longrightarrow> matches_any regs (Name p)"
  by (auto simp: matched_def matched_by_def matches_any_def list_ex_iff)

lemma filter_proxies_ok:
  "(\<forall>p \<in> set (filter_proxies regs ps). matches_any regs (Name p)) \<and>
   distinct (map Name (filter_proxies regs ps))"
  using set_first_seen_from [of "{}" "matched regs ps"]
  by (auto simp: filter_proxies_eq first_seen_def distinct_first_seen_from dest: matched_matches)

lemma filter_outer_Nil: "filter_outer regs [] st = st"
  by (induction regs) simp_all

lemma filter_proxies_Nil: "filter_proxies regs [] = []"
  by (simp add: filter_proxies_def filter_outer_Nil)

lemma cache_inv_slot:
  assumes "cache_inv gb" and "i < length (providers gb)"
    and "VehicleType (providers gb ! i) \<noteq> types_Compatible"
  shows "(\<forall>p \<in> set (proxies gb ! i). matches_any (filterRegs gb) (Name p)) \<and>
         distinct (map Name (proxies gb ! i))"
proof -
  from assms have "slot_ok (filterRegs gb) (zip (providers gb) (proxies gb) ! i)"
    by (simp add: cache_inv_def wf_group_def list_all_length)
  with assms show ?thesis
    by (simp add: cache_inv_def wf_group_def slot_ok_def list_all_iff)
qed

lemma slot_after_ok:
  assumes "cache_inv gb" and "i < length (providers gb)"
    and "VehicleType (providers gb ! i) \<noteq> types_Compatible"
  shows "(\<forall>p \<in> set (slot_after gb i). matches_any (filterRegs gb) (Name p)) \<and>
         distinct (map Name (slot_after gb i))"
  using cache_inv_slot [OF assms] assms(3) filter_proxies_ok [of "filterRegs gb" "Proxies (providers gb ! i)"]
  by (simp add: slot_after_def Let_def)

lemma slot_after_Compatible:
  "VehicleType (providers gb ! i) = types_Compatible \<Longrightarrow> slot_after gb i = Proxies (providers gb ! i)"
  by (simp add: slot_after_def)

lemma coherent_empty:
  assumes "coherent gb" and "\<forall>pd \<in> set (providers gb). Proxies pd = []" and "i < length (providers gb)"
  shows "slot_after gb i = []"
proof -
  from assms have c: "coherent_slot gb i" by (simp add: coherent_def list_all_iff)
  from assms have e: "Proxies (providers gb ! i) = []" by simp
  from c e show ?thesis
    by (auto simp: coherent_slot_def slot_after_def filter_proxies_Nil Let_def)
qed

text \<open>
  C10: with filters configured, a call of \<^verbatim>\<open>GetProxies\<close> leaves in the slot of a Compatible
  provider that provider's present backend list as it is, no filter applied, and in its version
  cell the provider's present version, whatever the slot and the cell held before. Every name
  of that list is a name of the result, and when the second pass does not run every backend of
  that list is in the result, whether or not a filter matches its name.
\<close>

theorem GetProxies_Compatible_unfiltered:
  assumes "wf_group gb" and "filterRegs gb \<noteq> []" and "i < length (providers gb)"
    and "VehicleType (providers gb ! i) = types_Compatible"
  shows "\<exists>r gb'. GetProxies tunnel_Proxies touch gb = Some (r, gb') \<and>
           proxies gb' ! i = Proxies (providers gb ! i) \<and>
           versions gb' ! i = Version (providers gb ! i) \<and>
           Name ` set (Proxies (providers gb ! i)) \<subseteq> Name ` set r \<and>
           (length (providers gb) \<le> 1 \<or> length (filterRegs gb) \<le> 1 \<longrightarrow>
              set (Proxies (providers gb ! i)) \<subseteq> set r)"
proof -
  let ?r = "if length (providers gb) > 1 \<and> length (filterRegs gb) > 1
            then cross_pass (filterRegs gb) (base_list tunnel_Proxies gb)
            else base_list tunnel_Proxies gb"
  have eq: "GetProxies tunnel_Proxies touch gb = Some (?r, state_after touch gb)"
    by (rule GetProxies_eq [OF assms(1)])
  have slot: "slot_after gb i = Proxies (providers gb ! i)"
    by (rule slot_after_Compatible [OF assms(4)])
  have st: "proxies (state_after touch gb) ! i = Proxies (providers gb ! i)"
      "versions (state_after touch gb) ! i = Version (providers gb ! i)"
    using state_after_slot [OF assms(2,3), of touch] slot by simp_all
  have sub: "set (Proxies (providers gb ! i)) \<subseteq> set (combined gb)"
    using slot_after_in_combined [OF assms(2,3)] slot by simp
  then have sub': "set (Proxies (providers gb ! i)) \<subseteq> set (base_list tunnel_Proxies gb)"
    by (auto simp: base_list_def)
  have "Name ` set ?r = Name ` set (base_list tunnel_Proxies gb)"
    by (simp add: names_cross_pass)
  with sub' have names: "Name ` set (Proxies (providers gb ! i)) \<subseteq> Name ` set ?r"
    by blast
  have plain: "length (providers gb) \<le> 1 \<or> length (filterRegs gb) \<le> 1 \<longrightarrow>
      set (Proxies (providers gb ! i)) \<subseteq> set ?r"
    using sub' by auto
  show ?thesis
    using eq st names plain by blast
qed

text \<open>The backend jp1 of a Compatible provider is returned although the only filter is hk.\<close>

theorem GetProxies_Compatible_unfiltered_witness:
  "wf_group group_compatible \<and> length (filterRegs group_compatible) = 1 \<and>
   VehicleType (providers group_compatible ! 0) = types_Compatible \<and>
   Proxies (providers group_compatible ! 0) = [jp1] \<and>
   \<not> matches_any (filterRegs group_compatible) (Name jp1) \<and>
   (\<exists>r gb'. GetProxies registry False group_compatible = Some (r, gb') \<and>
      proxies gb' ! 0 = [jp1] \<and> jp1 \<in> set r)"
proof -
  have w: "wf_group group_compatible" by code_simp
  have f: "filterRegs group_compatible \<noteq> []" by (simp add: group_compatible_def new_group_def)
  have l: "length (filterRegs group_compatible) = 1" by code_simp
  have i: "0 < length (providers group_compatible)" by code_simp
  have v: "VehicleType (providers group_compatible ! 0) = types_Compatible" by code_simp
  have p: "Proxies (providers group_compatible ! 0) = [jp1]" by code_simp
  have m: "\<not> matches_any (filterRegs group_compatible) (Name jp1)" by code_simp
  from GetProxies_Compatible_unfiltered [OF w f i v, of registry False] p l
  have "\<exists>r gb'. GetProxies registry False group_compatible = Some (r, gb') \<and>
      proxies gb' ! 0 = [jp1] \<and> jp1 \<in> set r"
    by auto
  with w l v p m show ?thesis by blast
qed

text \<open>
  C8: \<^verbatim>\<open>GetProxies\<close> returns the fallback backend of the registry, and nothing else, when no
  provider is configured; when no filter is configured and every provider returns an empty
  list; when filters are configured and every slot is empty after the providers have been gone
  through; and so also when filters are configured, every provider returns an empty list and
  the cache agrees with its providers.
\<close>

theorem GetProxies_fallback:
  assumes "wf_group gb"
  shows "\<exists>r gb'. GetProxies tunnel_Proxies touch gb = Some (r, gb') \<and>
           (providers gb = [] \<or>
            (filterRegs gb = [] \<and> (\<forall>pd \<in> set (providers gb). Proxies pd = [])) \<or>
            (filterRegs gb \<noteq> [] \<and> (\<forall>slot \<in> set (proxies gb'). slot = [])) \<or>
            (filterRegs gb \<noteq> [] \<and> coherent gb \<and> (\<forall>pd \<in> set (providers gb). Proxies pd = []))
            \<longrightarrow> r = [tunnel_Proxies ''COMPATIBLE''])"
proof -
  let ?r = "if length (providers gb) > 1 \<and> length (filterRegs gb) > 1
            then cross_pass (filterRegs gb) (base_list tunnel_Proxies gb)
            else base_list tunnel_Proxies gb"
  have eq: "GetProxies tunnel_Proxies touch gb = Some (?r, state_after touch gb)"
    by (rule GetProxies_eq [OF assms])
  have fb: "combined gb = [] \<Longrightarrow> ?r = [tunnel_Proxies ''COMPATIBLE'']"
    by (simp add: base_list_def cross_pass_single)
  have a: "providers gb = [] \<Longrightarrow> combined gb = []"
    by (simp add: combined_def)
  have b: "filterRegs gb = [] \<and> (\<forall>pd \<in> set (providers gb). Proxies pd = []) \<Longrightarrow> combined gb = []"
    by (simp add: combined_def)
  have c: "filterRegs gb \<noteq> [] \<and> (\<forall>slot \<in> set (proxies (state_after touch gb)). slot = []) \<Longrightarrow> combined gb = []"
    by (simp add: combined_def state_after_def refreshed_def)
  have d: "filterRegs gb \<noteq> [] \<and> coherent gb \<and> (\<forall>pd \<in> set (providers gb). Proxies pd = []) \<Longrightarrow> combined gb = []"
    using coherent_empty [of gb] by (simp add: combined_def)
  from a b c d fb have
    "providers gb = [] \<or>
       (filterRegs gb = [] \<and> (\<forall>pd \<in> set (providers gb). Proxies pd = [])) \<or>
       (filterRegs gb \<noteq> [] \<and> (\<forall>slot \<in> set (proxies (state_after touch gb)). slot = [])) \<or>
       (filterRegs gb \<noteq> [] \<and> coherent gb \<and> (\<forall>pd \<in> set (providers gb). Proxies pd = []))
     \<longrightarrow> ?r = [tunnel_Proxies ''COMPATIBLE'']"
    by blast
  with eq show ?thesis by blast
qed

text \<open>A group without providers, and a group with filters whose providers hold nothing.\<close>

theorem GetProxies_fallback_witness:
  "wf_group group_empty \<and> providers group_empty = [] \<and>
   map_option fst (GetProxies registry True group_empty) = Some [registry ''COMPATIBLE''] \<and>
   wf_group group_nothing \<and> length (filterRegs group_nothing) = 2 \<and> coherent group_nothing \<and>
   map Proxies (providers group_nothing) = [[], []] \<and>
   map_option fst (GetProxies registry True group_nothing) = Some [registry ''COMPATIBLE'']"
proof -
  have w1: "wf_group group_empty" and p1: "providers group_empty = []" by code_simp+
  have w2: "wf_group group_nothing" and l2: "length (filterRegs group_nothing) = 2"
    and c2: "coherent group_nothing" and p2: "map Proxies (providers group_nothing) = [[], []]"
    by code_simp+
  have f2: "filterRegs group_nothing \<noteq> []" using l2 by auto
  have e2: "\<forall>pd \<in> set (providers group_nothing). Proxies pd = []"
    by code_simp
  from GetProxies_fallback [OF w1, of registry True] p1
  have a: "map_option fst (GetProxies registry True group_empty) = Some [registry ''COMPATIBLE'']"
    by auto
  from GetProxies_fallback [OF w2, of registry True] f2 c2 e2
  have b: "map_option fst (GetProxies registry True group_nothing) = Some [registry ''COMPATIBLE'']"
    by auto
  from w1 p1 a w2 l2 c2 p2 b show ?thesis by blast
qed

section \<open>The cache invariant and the names of a result\<close>

lemma cache_inv_nth:
  "cache_inv gb \<longleftrightarrow>
     wf_group gb \<and> (\<forall>i < length (providers gb). slot_ok (filterRegs gb) (providers gb ! i, proxies gb ! i))"
  by (auto simp: cache_inv_def wf_group_def list_all_length)

lemma wf_state_after: "wf_group gb \<Longrightarrow> wf_group (state_after touch gb)"
  by (simp add: wf_group_def state_after_def refreshed_def)

lemma cache_inv_state_after:
  assumes "cache_inv gb"
  shows "cache_inv (state_after touch gb)"
proof (cases "filterRegs gb = []")
  case True
  with assms show ?thesis
    by (simp add: cache_inv_nth wf_group_def state_after_def slot_ok_def)
next
  case False
  have "slot_ok (filterRegs gb) (touched touch (providers gb ! i), slot_after gb i)"
    if "i < length (providers gb)" for i
    using slot_after_ok [OF assms that] by (auto simp: slot_ok_def list_all_iff)
  with assms False show ?thesis
    by (simp add: cache_inv_nth wf_group_def state_after_def refreshed_def)
qed

lemma cache_inv_GetProxies:
  "cache_inv gb \<Longrightarrow> GetProxies tunnel_Proxies touch gb = Some (r, gb') \<Longrightarrow> cache_inv gb'"
  using cache_inv_state_after [of gb touch] GetProxies_eq [of gb tunnel_Proxies touch]
  by (auto simp: cache_inv_def)

lemma cache_inv_NewGroupBase:
  "NewGroupBase compile opt = Some gb \<Longrightarrow> cache_inv gb"
  by (auto simp: NewGroupBase_def cache_inv_nth wf_group_def slot_ok_def split: option.splits if_splits)

lemma cache_inv_provider_changed:
  assumes "cache_inv gb"
  shows "cache_inv (provider_changed i ps v gb)"
proof -
  let ?g = "provider_changed i ps v gb"
  have same: "length (providers ?g) = length (providers gb)" "proxies ?g = proxies gb"
      "versions ?g = versions gb" "filterRegs ?g = filterRegs gb"
    by (simp_all add: provider_changed_def)
  have vt: "VehicleType (providers ?g ! j) = VehicleType (providers gb ! j)"
    if "j < length (providers gb)" for j
    using that by (cases "j = i") (simp_all add: provider_changed_def)
  have "slot_ok (filterRegs ?g) (providers ?g ! j, proxies ?g ! j)"
    if "j < length (providers gb)" for j
    using assms that vt [OF that] by (simp add: cache_inv_nth slot_ok_def same)
  with assms show ?thesis
    by (simp add: cache_inv_nth wf_group_def same)
qed

lemma cache_inv_healthCheck: "cache_inv gb \<Longrightarrow> cache_inv (healthCheck gb)"
  by (auto simp: cache_inv_nth wf_group_def healthCheck_def healthCheck_finish_def
      healthCheck_providers_def healthCheck_start_def slot_ok_def HealthCheck_def)

lemma cache_inv_count_failed: "cache_inv gb \<Longrightarrow> cache_inv (count_failed now gb)"
proof -
  have "cache_inv (g\<lparr>failedTimes := n\<rparr>)" and "cache_inv (g\<lparr>failedTimes := n, failedTime := t\<rparr>)"
    if "cache_inv g" for g n t
    using that by (simp_all add: cache_inv_nth wf_group_def)
  then show "cache_inv gb \<Longrightarrow> cache_inv (count_failed now gb)"
    by (simp add: count_failed_def Let_def cache_inv_healthCheck)
qed

lemma cache_inv_onDialSuccess: "cache_inv gb \<Longrightarrow> cache_inv (onDialSuccess gb)"
  by (simp add: onDialSuccess_def cache_inv_nth wf_group_def)

lemma wf_NewGroupBase: "NewGroupBase compile opt = Some gb \<Longrightarrow> wf_group gb"
  by (auto simp: NewGroupBase_def wf_group_def split: option.splits if_splits)

lemma wf_GetProxies:
  "wf_group gb \<Longrightarrow> GetProxies tunnel_Proxies touch gb = Some (r, gb') \<Longrightarrow> wf_group gb'"
  using wf_state_after [of gb touch] GetProxies_eq [of gb tunnel_Proxies touch] by auto

lemma coherent_nth:
  "coherent gb \<longleftrightarrow> (\<forall>i < length (providers gb). coherent_slot gb i)"
  by (auto simp: coherent_def list_all_iff)

lemma coherent_NewGroupBase: "NewGroupBase compile opt = Some gb \<Longrightarrow> coherent gb"
  by (auto simp: NewGroupBase_def coherent_nth coherent_slot_def split: option.splits if_splits)

lemma coherent_state_after:
  assumes "coherent gb"
  shows "coherent (state_after touch gb)"
proof (cases "filterRegs gb = []")
  case True
  with assms show ?thesis
    by (simp add: coherent_nth coherent_slot_def state_after_def)
next
  case False
  have "coherent_slot (refreshed touch gb) i" if "i < length (providers gb)" for i
    using assms that
    by (auto simp: coherent_nth coherent_slot_def refreshed_def slot_after_def Let_def)
  with False show ?thesis
    by (simp add: coherent_nth state_after_def) (simp add: refreshed_def)
qed

lemma coherent_GetProxies:
  "wf_group gb \<Longrightarrow> coherent gb \<Longrightarrow> GetProxies tunnel_Proxies touch gb = Some (r, gb') \<Longrightarrow> coherent gb'"
  using coherent_state_after [of gb touch] GetProxies_eq [of gb tunnel_Proxies touch] by auto

lemma coherent_provider_changed:
  assumes "coherent gb" and "i < length (providers gb)" and "v \<noteq> versions gb ! i"
  shows "coherent (provider_changed i ps v gb)"
proof -
  let ?g = "provider_changed i ps v gb"
  have "coherent_slot ?g j" if "j < length (providers gb)" for j
  proof (cases "j = i")
    case True
    then show ?thesis using assms by (simp add: coherent_slot_def provider_changed_def)
  next
    case False
    then show ?thesis
      using assms(1) that by (simp add: coherent_nth coherent_slot_def provider_changed_def)
  qed
  then show ?thesis by (simp add: coherent_nth) (simp add: provider_changed_def)
qed

text \<open>
  C1: the names of the backends that \<^verbatim>\<open>GetProxies\<close> returns are pairwise different when more
  than one provider and more than one filter are configured, so that the second pass runs, and
  when at least one filter and at most one provider, not of the Compatible kind, are
  configured.
\<close>

theorem GetProxies_distinct_names:
  assumes "wf_group gb"
    and "(1 < length (providers gb) \<and> 1 < length (filterRegs gb)) \<or>
         (filterRegs gb \<noteq> [] \<and> length (providers gb) \<le> 1 \<and> cache_inv gb \<and>
          (\<forall>pd \<in> set (providers gb). VehicleType pd \<noteq> types_Compatible))"
  shows "\<exists>r gb'. GetProxies tunnel_Proxies touch gb = Some (r, gb') \<and> distinct (map Name r)"
proof -
  let ?r = "if length (providers gb) > 1 \<and> length (filterRegs gb) > 1
            then cross_pass (filterRegs gb) (base_list tunnel_Proxies gb)
            else base_list tunnel_Proxies gb"
  have eq: "GetProxies tunnel_Proxies touch gb = Some (?r, state_after touch gb)"
    by (rule GetProxies_eq [OF assms(1)])
  from assms(2) have "distinct (map Name ?r)"
  proof
    assume "1 < length (providers gb) \<and> 1 < length (filterRegs gb)"
    then show ?thesis by (simp add: distinct_cross_pass)
  next
    assume h: "filterRegs gb \<noteq> [] \<and> length (providers gb) \<le> 1 \<and> cache_inv gb \<and>
          (\<forall>pd \<in> set (providers gb). VehicleType pd \<noteq> types_Compatible)"
    then consider "length (providers gb) = 0" | "length (providers gb) = 1" by linarith
    then have "distinct (map Name (base_list tunnel_Proxies gb))"
    proof cases
      case 1
      then show ?thesis by (simp add: base_list_def combined_def)
    next
      case 2
      then have "VehicleType (providers gb ! 0) \<noteq> types_Compatible" using h by simp
      then have "distinct (map Name (slot_after gb 0))"
        using slot_after_ok [of gb 0] h 2 by simp
      then show ?thesis using h 2 by (simp add: base_list_def combined_def)
    qed
    then show ?thesis using h by simp
  qed
  with eq show ?thesis by blast
qed

text \<open>Both cases on concrete groups: the second pass, and a single subscription provider.\<close>

theorem GetProxies_distinct_names_witness:
  "wf_group group_cross \<and> 1 < length (providers group_cross) \<and> 1 < length (filterRegs group_cross) \<and>
   map Name (concat (map Proxies (providers group_cross))) = [''us1'', ''us1'', ''jp1'', ''hk1''] \<and>
   (\<exists>r gb'. GetProxies registry False group_cross = Some (r, gb') \<and> distinct (map Name r)) \<and>
   cache_inv group_single \<and> length (filterRegs group_single) = 1 \<and>
   map VehicleType (providers group_single) = [types_HTTP] \<and>
   map Name (concat (map Proxies (providers group_single))) = [''hk1'', ''jp1'', ''hk1''] \<and>
   (\<exists>r gb'. GetProxies registry False group_single = Some (r, gb') \<and> distinct (map Name r))"
proof -
  have w: "wf_group group_cross" by code_simp
  have n: "1 < length (providers group_cross) \<and> 1 < length (filterRegs group_cross)" by code_simp
  have p: "map Name (concat (map Proxies (providers group_cross))) = [''us1'', ''us1'', ''jp1'', ''hk1'']"
    by code_simp
  from GetProxies_distinct_names [OF w, of registry False] n
  have a: "\<exists>r gb'. GetProxies registry False group_cross = Some (r, gb') \<and> distinct (map Name r)"
    by blast
  have w': "wf_group group_single" and c: "cache_inv group_single"
    and l: "length (filterRegs group_single) = 1" and o: "length (providers group_single) \<le> 1"
    and v: "map VehicleType (providers group_single) = [types_HTTP]"
    and v': "\<forall>pd \<in> set (providers group_single). VehicleType pd \<noteq> types_Compatible"
    and q: "map Name (concat (map Proxies (providers group_single))) = [''hk1'', ''jp1'', ''hk1'']"
    by code_simp+
  have f: "filterRegs group_single \<noteq> []" using l by auto
  from GetProxies_distinct_names [OF w', of registry False] f o c v'
  have b: "\<exists>r gb'. GetProxies registry False group_single = Some (r, gb') \<and> distinct (map Name r)"
    by blast
  from w n p a c l v q b show ?thesis by blast
qed

text \<open>With one filter and two providers the second pass does not run, and a name that both
  providers supply is returned twice.\<close>

theorem GetProxies_distinct_names_counterexample:
  "wf_group group_one_filter \<and> length (filterRegs group_one_filter) = 1 \<and>
   length (providers group_one_filter) = 2 \<and>
   map_option fst (GetProxies registry False group_one_filter) = Some [hk1, hk1_again] \<and>
   map Name [hk1, hk1_again] = [''hk1'', ''hk1''] \<and>
   \<not> distinct (map Name [hk1, hk1_again])"
  by code_simp


lemma NewGroupBase_literal:
  "NewGroupBase compile_literal \<lparr>opt_filter = ''hk'' @ [CHR 0x60] @ ''jp'', opt_providers = pds\<rparr>
     = Some (new_group [literal ''hk'', literal ''jp''] pds)"
  "NewGroupBase compile_literal \<lparr>opt_filter = ''hk'', opt_providers = pds\<rparr>
     = Some (new_group [literal ''hk''] pds)"
  "NewGroupBase compile_literal \<lparr>opt_filter = [], opt_providers = pds\<rparr> = Some (new_group [] pds)"
  by (simp_all add: NewGroupBase_def compile_literal_def new_group_def)

section \<open>Filters and the result\<close>

lemma second_pass_parts:
  "(\<forall>p \<in> set (first_seen (matched regs ps)). matches_any regs (Name p)) \<and>
   (\<forall>p \<in> set (first_seen (not_matched regs ps)). \<not> matches_any regs (Name p)) \<and>
   subseq (first_seen (not_matched regs ps)) ps"
proof -
  have a: "set (first_seen (matched regs ps)) \<subseteq> set (matched regs ps)"
    by (simp add: first_seen_def set_first_seen_from)
  have b: "set (first_seen (not_matched regs ps)) \<subseteq> set (not_matched regs ps)"
    by (simp add: first_seen_def set_first_seen_from)
  have "subseq (first_seen (not_matched regs ps)) (not_matched regs ps)"
    by (simp add: first_seen_def subseq_first_seen_from)
  moreover have "subseq (not_matched regs ps) ps"
    by (simp add: not_matched_def)
  ultimately have c: "subseq (first_seen (not_matched regs ps)) ps"
    by (rule subseq_order.trans)
  from a have "\<forall>p \<in> set (first_seen (matched regs ps)). matches_any regs (Name p)"
    by (auto dest: matched_matches)
  moreover from b have "\<forall>p \<in> set (first_seen (not_matched regs ps)). \<not> matches_any regs (Name p)"
    by (auto simp: not_matched_def)
  ultimately show ?thesis using c by blast
qed

lemma combined_origin:
  assumes inv: "cache_inv gb" and f: "filterRegs gb \<noteq> []" and p: "p \<in> set (combined gb)"
  shows "matches_any (filterRegs gb) (Name p) \<or>
         (\<exists>pd \<in> set (providers gb). VehicleType pd = types_Compatible \<and> p \<in> set (Proxies pd))"
proof -
  from combined_slots [OF f p] obtain i where i: "i < length (providers gb)" "p \<in> set (slot_after gb i)"
    by blast
  show ?thesis
  proof (cases "VehicleType (providers gb ! i) = types_Compatible")
    case True
    then have "p \<in> set (Proxies (providers gb ! i))"
      using i by (simp add: slot_after_Compatible)
    moreover have "providers gb ! i \<in> set (providers gb)" using i by simp
    ultimately show ?thesis using True by blast
  next
    case False
    then show ?thesis using slot_after_ok [OF inv i(1)] i(2) by blast
  qed
qed

text \<open>
  C2: for a group with at least one filter, in a state that satisfies the invariant of the
  cache, every backend that \<^verbatim>\<open>GetProxies\<close> returns has a name that some filter matches, or is
  the fallback backend returned alone, or is a backend of a Compatible provider. So when no
  provider is of the Compatible kind and the result is not the fallback alone, no returned
  backend is unmatched. When the second pass runs, the result is a list of matched backends
  followed by a list of unmatched ones, and the unmatched ones stand in the order they have in
  the combined list.
\<close>

theorem GetProxies_matched:
  assumes "cache_inv gb" and "filterRegs gb \<noteq> []"
  shows "\<exists>r gb'. GetProxies tunnel_Proxies touch gb = Some (r, gb') \<and>
           (\<forall>p \<in> set r.
              matches_any (filterRegs gb) (Name p) \<or> r = [tunnel_Proxies ''COMPATIBLE''] \<or>
              (\<exists>pd \<in> set (providers gb). VehicleType pd = types_Compatible \<and> p \<in> set (Proxies pd))) \<and>
           ((\<forall>pd \<in> set (providers gb). VehicleType pd \<noteq> types_Compatible) \<and>
            r \<noteq> [tunnel_Proxies ''COMPATIBLE''] \<longrightarrow>
              (\<forall>p \<in> set r. matches_any (filterRegs gb) (Name p))) \<and>
           (1 < length (providers gb) \<and> 1 < length (filterRegs gb) \<longrightarrow>
              (\<exists>ms us. r = ms @ us \<and>
                 (\<forall>p \<in> set ms. matches_any (filterRegs gb) (Name p)) \<and>
                 (\<forall>p \<in> set us. \<not> matches_any (filterRegs gb) (Name p)) \<and>
                 us = first_seen (not_matched (filterRegs gb) (base_list tunnel_Proxies gb)) \<and>
                 subseq us (base_list tunnel_Proxies gb)))"
proof -
  let ?fs = "filterRegs gb"
  let ?fb = "tunnel_Proxies ''COMPATIBLE''"
  let ?base = "base_list tunnel_Proxies gb"
  let ?r = "if length (providers gb) > 1 \<and> length ?fs > 1 then cross_pass ?fs ?base else ?base"
  have wf: "wf_group gb" using assms(1) by (simp add: cache_inv_def)
  have eq: "GetProxies tunnel_Proxies touch gb = Some (?r, state_after touch gb)"
    by (rule GetProxies_eq [OF wf])
  have sub: "set ?r \<subseteq> set ?base"
    using set_cross_pass [of ?fs ?base] by simp
  have fb: "combined gb = [] \<Longrightarrow> ?r = [?fb]"
    by (simp add: base_list_def cross_pass_single)
  have A: "\<forall>p \<in> set ?r. matches_any ?fs (Name p) \<or> ?r = [?fb] \<or>
      (\<exists>pd \<in> set (providers gb). VehicleType pd = types_Compatible \<and> p \<in> set (Proxies pd))"
  proof
    fix p assume p: "p \<in> set ?r"
    show "matches_any ?fs (Name p) \<or> ?r = [?fb] \<or>
      (\<exists>pd \<in> set (providers gb). VehicleType pd = types_Compatible \<and> p \<in> set (Proxies pd))"
    proof (cases "combined gb = []")
      case True
      then show ?thesis using fb by blast
    next
      case False
      then have "p \<in> set (combined gb)" using p sub by (auto simp: base_list_def)
      then show ?thesis using combined_origin [OF assms] by blast
    qed
  qed
  then have B: "(\<forall>pd \<in> set (providers gb). VehicleType pd \<noteq> types_Compatible) \<and> ?r \<noteq> [?fb] \<longrightarrow>
      (\<forall>p \<in> set ?r. matches_any ?fs (Name p))"
    by blast
  have C: "1 < length (providers gb) \<and> 1 < length ?fs \<longrightarrow>
      (\<exists>ms us. ?r = ms @ us \<and>
         (\<forall>p \<in> set ms. matches_any ?fs (Name p)) \<and>
         (\<forall>p \<in> set us. \<not> matches_any ?fs (Name p)) \<and>
         us = first_seen (not_matched ?fs ?base) \<and> subseq us ?base)"
  proof
    assume c: "1 < length (providers gb) \<and> 1 < length ?fs"
    then have "?r = first_seen (matched ?fs ?base) @ first_seen (not_matched ?fs ?base)"
      by (simp add: cross_pass_second_pass second_pass_def)
    then show "\<exists>ms us. ?r = ms @ us \<and>
         (\<forall>p \<in> set ms. matches_any ?fs (Name p)) \<and>
         (\<forall>p \<in> set us. \<not> matches_any ?fs (Name p)) \<and>
         us = first_seen (not_matched ?fs ?base) \<and> subseq us ?base"
      using second_pass_parts [of ?fs ?base] by blast
  qed
  from eq A B C show ?thesis by blast
qed

text \<open>The matched backends hk1 and jp1 come first, the unmatched us1 of the Compatible provider last.\<close>

theorem GetProxies_matched_witness:
  "cache_inv group_cross \<and> length (filterRegs group_cross) = 2 \<and> length (providers group_cross) = 2 \<and>
   GetProxies registry False group_cross = Some ([hk1, jp1] @ [us1], state_after False group_cross) \<and>
   matches_any (filterRegs group_cross) (Name hk1) \<and> matches_any (filterRegs group_cross) (Name jp1) \<and>
   \<not> matches_any (filterRegs group_cross) (Name us1) \<and>
   VehicleType (providers group_cross ! 0) = types_Compatible \<and>
   us1 \<in> set (Proxies (providers group_cross ! 0)) \<and>
   (\<exists>r gb'. GetProxies registry False group_cross = Some (r, gb') \<and>
      (\<exists>ms us. r = ms @ us \<and> us = first_seen (not_matched (filterRegs group_cross) (base_list registry group_cross))))"
proof -
  have c: "cache_inv group_cross" and l: "length (filterRegs group_cross) = 2"
    and n: "length (providers group_cross) = 2"
    and m: "matches_any (filterRegs group_cross) (Name hk1)" "matches_any (filterRegs group_cross) (Name jp1)"
      "\<not> matches_any (filterRegs group_cross) (Name us1)"
    and v: "VehicleType (providers group_cross ! 0) = types_Compatible"
      "us1 \<in> set (Proxies (providers group_cross ! 0))"
    by code_simp+
  have f: "filterRegs group_cross \<noteq> []" using l by auto
  have w: "wf_group group_cross" using c by (simp add: cache_inv_def)
  have b: "base_list registry group_cross = [us1, us1_again, hk1, jp1]" by code_simp
  have s: "cross_pass (filterRegs group_cross) [us1, us1_again, hk1, jp1] = [hk1, jp1, us1]" by code_simp
  have e: "GetProxies registry False group_cross = Some ([hk1, jp1] @ [us1], state_after False group_cross)"
    using GetProxies_eq [OF w, of registry False] l n b s by simp
  from GetProxies_matched [OF c f, of registry False] l n
  have "\<exists>r gb'. GetProxies registry False group_cross = Some (r, gb') \<and>
      (\<exists>ms us. r = ms @ us \<and> us = first_seen (not_matched (filterRegs group_cross) (base_list registry group_cross)))"
    by auto
  with c l n e m v show ?thesis by blast
qed

text \<open>With one filter and one provider of the Compatible kind, a backend that no filter matches
  is returned.\<close>

theorem GetProxies_matched_counterexample:
  "cache_inv group_compatible \<and> length (filterRegs group_compatible) = 1 \<and>
   length (providers group_compatible) = 1 \<and>
   map_option fst (GetProxies registry False group_compatible) = Some [jp1] \<and>
   \<not> matches_any (filterRegs group_compatible) (Name jp1)"
  by code_simp

section \<open>The latency probe\<close>

lemma dom_store_delays:
  "dom (store_delays probe ts mp) = dom mp \<union> (\<lambda>t. Name (snd t)) ` {t \<in> set ts. probe t \<noteq> None}"
  by (induction ts arbitrary: mp) (auto split: option.splits)

lemma store_delays_Some:
  "store_delays probe ts mp n = Some d \<Longrightarrow>
     mp n = Some d \<or> (\<exists>t \<in> set ts. Name (snd t) = n \<and> probe t = Some d)"
proof (induction ts arbitrary: mp)
  case Nil
  then show ?case by simp
next
  case (Cons t ts)
  show ?case
  proof (cases "probe t")
    case None
    then show ?thesis using Cons.IH [of mp] Cons.prems by auto
  next
    case (Some delay)
    with Cons.prems have "store_delays probe ts (mp(Name (snd t) \<mapsto> delay)) n = Some d" by simp
    then have "(mp(Name (snd t) \<mapsto> delay)) n = Some d \<or>
        (\<exists>u \<in> set ts. Name (snd u) = n \<and> probe u = Some d)"
      by (rule Cons.IH)
    then show ?thesis
    proof
      assume h: "(mp(Name (snd t) \<mapsto> delay)) n = Some d"
      show ?thesis
      proof (cases "n = Name (snd t)")
        case True
        with h Some have "Name (snd t) = n \<and> probe t = Some d" by simp
        then show ?thesis by auto
      next
        case False
        with h show ?thesis by simp
      qed
    next
      assume "\<exists>u \<in> set ts. Name (snd u) = n \<and> probe u = Some d"
      then show ?thesis by auto
    qed
  qed
qed

lemma store_delays_other:
  "n \<notin> (\<lambda>t. Name (snd t)) ` set ts \<Longrightarrow> store_delays probe ts mp n = mp n"
  by (induction ts arbitrary: mp) (auto split: option.splits)

lemma store_delays_distinct:
  "distinct (map (\<lambda>t. Name (snd t)) ts) \<Longrightarrow> t \<in> set ts \<Longrightarrow>
     store_delays probe ts mp (Name (snd t)) =
       (case probe t of None \<Rightarrow> mp (Name (snd t)) | Some d \<Rightarrow> Some d)"
proof (induction ts arbitrary: mp)
  case Nil
  then show ?case by simp
next
  case (Cons u ts)
  show ?case
  proof (cases "t = u")
    case True
    then have "Name (snd t) \<notin> (\<lambda>t. Name (snd t)) ` set ts" using Cons.prems by auto
    then show ?thesis using True by (simp add: store_delays_other split: option.splits)
  next
    case False
    then have in_ts: "t \<in> set ts" using Cons.prems by auto
    then have ne: "Name (snd u) \<noteq> Name (snd t)" using Cons.prems by auto
    have dist: "distinct (map (\<lambda>t. Name (snd t)) ts)" using Cons.prems by simp
    show ?thesis
    proof (cases "probe u")
      case None
      then show ?thesis using Cons.IH [OF dist in_ts, of mp] by simp
    next
      case (Some du)
      have "store_delays probe (u # ts) mp (Name (snd t)) =
          store_delays probe ts (mp(Name (snd u) \<mapsto> du)) (Name (snd t))"
        using Some by simp
      also have "\<dots> = (case probe t of None \<Rightarrow> (mp(Name (snd u) \<mapsto> du)) (Name (snd t)) | Some d \<Rightarrow> Some d)"
        by (rule Cons.IH [OF dist in_ts])
      also have "\<dots> = (case probe t of None \<Rightarrow> mp (Name (snd t)) | Some d \<Rightarrow> Some d)"
        using ne by (simp split: option.splits)
      finally show ?thesis .
    qed
  qed
qed

lemma names_enumerate: "map (\<lambda>t. Name (snd t)) (enumerate k ps) = map Name ps"
  by (induction ps arbitrary: k) simp_all

lemma tasks_enumerate:
  "t \<in> set (enumerate 0 ps) \<longleftrightarrow> fst t < length ps \<and> snd t = ps ! fst t"
  by (cases t) (auto simp: in_set_enumerate_eq)

text \<open>
  C6: whatever the order in which the probing tasks finish, \<^verbatim>\<open>URLTest\<close> returns a mapping
  whose keys are the names of the resolved backends whose probe succeeded: a backend whose probe
  succeeded has an entry under its name, every entry is the delay of a backend of that name
  whose probe succeeded, and a name all of whose backends failed is not a key. When the names
  of the resolved backends are pairwise different, the entry under the name of a backend is its
  own delay. An error is returned exactly when the mapping is empty, which is when every probe
  failed.
\<close>

theorem URLTest_result:
  assumes "wf_group gb" and "\<forall>ts. mset (sched ts) = mset ts"
  shows "\<exists>ps mp e gb'.
           GetProxies tunnel_Proxies False gb = Some (ps, gb') \<and>
           URLTest tunnel_Proxies probe sched gb = Some (mp, e, gb') \<and>
           dom mp = {Name (ps ! i) | i. i < length ps \<and> probe (i, ps ! i) \<noteq> None} \<and>
           (\<forall>n d. mp n = Some d \<longrightarrow> (\<exists>i < length ps. Name (ps ! i) = n \<and> probe (i, ps ! i) = Some d)) \<and>
           (distinct (map Name ps) \<longrightarrow> (\<forall>i < length ps. mp (Name (ps ! i)) = probe (i, ps ! i))) \<and>
           (e = Some AllProxiesTimeout \<longleftrightarrow> dom mp = {}) \<and>
           (e = None \<longleftrightarrow> dom mp \<noteq> {}) \<and>
           (dom mp = {} \<longleftrightarrow> (\<forall>i < length ps. probe (i, ps ! i) = None))"
proof -
  from GetProxies_eq [OF assms(1), of tunnel_Proxies False]
  obtain ps gb' where g: "GetProxies tunnel_Proxies False gb = Some (ps, gb')" by blast
  let ?ts = "enumerate 0 ps"
  let ?mp = "store_delays probe (sched ?ts) Map.empty"
  let ?e = "if dom ?mp = {} then Some AllProxiesTimeout else None"
  have u: "URLTest tunnel_Proxies probe sched gb = Some (?mp, ?e, gb')"
    by (simp add: URLTest_def g Let_def)
  have m: "mset (sched ?ts) = mset ?ts" using assms(2) by blast
  then have s: "set (sched ?ts) = set ?ts" by (rule mset_eq_setD)
  have "mset (map (\<lambda>t. Name (snd t)) (sched ?ts)) = mset (map (\<lambda>t. Name (snd t)) ?ts)"
    using m by simp
  then have "distinct (map (\<lambda>t. Name (snd t)) (sched ?ts)) \<longleftrightarrow> distinct (map (\<lambda>t. Name (snd t)) ?ts)"
    by (rule mset_eq_imp_distinct_iff)
  moreover have "map (\<lambda>t. Name (snd t)) ?ts = map Name ps"
    by (rule names_enumerate)
  ultimately have d: "distinct (map (\<lambda>t. Name (snd t)) (sched ?ts)) \<longleftrightarrow> distinct (map Name ps)"
    by simp
  have "(\<lambda>t. Name (snd t)) ` {t \<in> set ?ts. probe t \<noteq> None} =
      {Name (ps ! i) | i. i < length ps \<and> probe (i, ps ! i) \<noteq> None}" (is "?L = ?R")
  proof (intro set_eqI iffI)
    fix n assume "n \<in> ?L"
    then obtain t where t: "t \<in> set ?ts" "probe t \<noteq> None" "n = Name (snd t)" by blast
    from t(1) have "fst t < length ps" "t = (fst t, ps ! fst t)"
      by (simp_all add: tasks_enumerate prod_eq_iff)
    with t(2,3) have "fst t < length ps \<and> probe (fst t, ps ! fst t) \<noteq> None \<and> n = Name (ps ! fst t)"
      by (metis snd_conv)
    then show "n \<in> ?R" by blast
  next
    fix n assume "n \<in> ?R"
    then obtain i where i: "i < length ps" "probe (i, ps ! i) \<noteq> None" "n = Name (ps ! i)" by blast
    then have "(i, ps ! i) \<in> {t \<in> set ?ts. probe t \<noteq> None}"
      by (simp add: tasks_enumerate)
    then show "n \<in> ?L" using i(3) by (metis (no_types, lifting) image_eqI snd_conv)
  qed
  then have A: "dom ?mp = {Name (ps ! i) | i. i < length ps \<and> probe (i, ps ! i) \<noteq> None}"
    by (simp add: dom_store_delays s)
  have B: "\<forall>n d. ?mp n = Some d \<longrightarrow> (\<exists>i < length ps. Name (ps ! i) = n \<and> probe (i, ps ! i) = Some d)"
  proof (intro allI impI)
    fix n d assume "?mp n = Some d"
    then obtain t where t: "t \<in> set ?ts" "Name (snd t) = n" "probe t = Some d"
      using store_delays_Some [of probe "sched ?ts" Map.empty n d] s by auto
    from t(1) have i: "fst t < length ps" and e: "t = (fst t, ps ! fst t)"
      by (simp_all add: tasks_enumerate prod_eq_iff)
    from e t(2) have "Name (ps ! fst t) = n" by (metis snd_conv)
    moreover from e t(3) have "probe (fst t, ps ! fst t) = Some d" by simp
    ultimately show "\<exists>i < length ps. Name (ps ! i) = n \<and> probe (i, ps ! i) = Some d"
      using i by blast
  qed
  have C: "distinct (map Name ps) \<longrightarrow> (\<forall>i < length ps. ?mp (Name (ps ! i)) = probe (i, ps ! i))"
  proof (intro impI allI)
    fix i assume "distinct (map Name ps)" and "i < length ps"
    then have "distinct (map (\<lambda>t. Name (snd t)) (sched ?ts))" and "(i, ps ! i) \<in> set (sched ?ts)"
      using d s by (simp_all add: tasks_enumerate)
    then have "?mp (Name (snd (i, ps ! i))) =
        (case probe (i, ps ! i) of None \<Rightarrow> Map.empty (Name (snd (i, ps ! i))) | Some d \<Rightarrow> Some d)"
      by (rule store_delays_distinct)
    then show "?mp (Name (ps ! i)) = probe (i, ps ! i)"
      by (simp split: option.splits)
  qed
  have D: "dom ?mp = {} \<longleftrightarrow> (\<forall>i < length ps. probe (i, ps ! i) = None)"
    by (auto simp: A)
  from g u A B C D show ?thesis
    by (intro exI [of _ ps] exI [of _ ?mp] exI [of _ ?e] exI [of _ gb']) simp
qed

text \<open>Three backends of which one times out give a mapping of two entries and no error; three
  that all time out give the empty mapping and the error.\<close>

theorem URLTest_result_witness:
  "wf_group group_three \<and>
   map_option fst (GetProxies registry False group_three) = Some [hk1, jp1, us1] \<and>
   probe_two (0, hk1) = Some 120 \<and> probe_two (1, jp1) = None \<and> probe_two (2, us1) = Some 80 \<and>
   (\<exists>mp gb'. URLTest registry probe_two rev group_three = Some (mp, None, gb') \<and>
      dom mp = {''hk1'', ''us1''} \<and> mp ''hk1'' = Some 120 \<and> mp ''us1'' = Some 80) \<and>
   (\<exists>mp gb'. URLTest registry probe_none rev group_three = Some (mp, Some AllProxiesTimeout, gb') \<and>
      dom mp = {})"
proof -
  have w: "wf_group group_three" by code_simp
  have g: "map_option fst (GetProxies registry False group_three) = Some [hk1, jp1, us1]"
    by code_simp
  have perm: "\<forall>ts :: probe_task list. mset (rev ts) = mset ts" by simp
  have pr: "probe_two (0, hk1) = Some 120" "probe_two (1, jp1) = None" "probe_two (2, us1) = Some 80"
    by (simp_all add: probe_two_def hk1_def jp1_def us1_def)
  have nm: "Name hk1 = ''hk1''" "Name jp1 = ''jp1''" "Name us1 = ''us1''"
    by (simp_all add: hk1_def jp1_def us1_def)
  have dist: "distinct (map Name [hk1, jp1, us1])" by (simp add: nm)
  from URLTest_result [OF w perm, of registry probe_two]
  obtain ps mp e gb' where all:
    "GetProxies registry False group_three = Some (ps, gb') \<and>
     URLTest registry probe_two rev group_three = Some (mp, e, gb') \<and>
     dom mp = {Name (ps ! i) | i. i < length ps \<and> probe_two (i, ps ! i) \<noteq> None} \<and>
     (\<forall>n d. mp n = Some d \<longrightarrow> (\<exists>i < length ps. Name (ps ! i) = n \<and> probe_two (i, ps ! i) = Some d)) \<and>
     (distinct (map Name ps) \<longrightarrow> (\<forall>i < length ps. mp (Name (ps ! i)) = probe_two (i, ps ! i))) \<and>
     (e = Some AllProxiesTimeout \<longleftrightarrow> dom mp = {}) \<and>
     (e = None \<longleftrightarrow> dom mp \<noteq> {}) \<and>
     (dom mp = {} \<longleftrightarrow> (\<forall>i < length ps. probe_two (i, ps ! i) = None))"
    by (elim exE) (rule that)
  note a = all [THEN conjunct1] all [THEN conjunct2, THEN conjunct1]
    all [THEN conjunct2, THEN conjunct2, THEN conjunct1]
    all [THEN conjunct2, THEN conjunct2, THEN conjunct2, THEN conjunct2, THEN conjunct1]
    all [THEN conjunct2, THEN conjunct2, THEN conjunct2, THEN conjunct2, THEN conjunct2,
      THEN conjunct2, THEN conjunct1]
  from a(1) g have ps: "ps = [hk1, jp1, us1]" by simp
  have nth: "[hk1, jp1, us1] ! 0 = hk1" "[hk1, jp1, us1] ! 1 = jp1" "[hk1, jp1, us1] ! 2 = us1"
    by simp_all
  have three: "i < 3 \<longleftrightarrow> i = 0 \<or> i = 1 \<or> i = 2" for i :: nat by auto
  from a(4) dist have v: "mp (Name ([hk1, jp1, us1] ! i)) = probe_two (i, [hk1, jp1, us1] ! i)"
    if "i < 3" for i
    using that by (simp add: ps)
  have v0: "mp ''hk1'' = Some 120" using v [of 0] by (simp add: pr nm)
  have v2: "mp ''us1'' = Some 80" using v [of 2] by (simp add: pr nm)
  have d: "dom mp = {''hk1'', ''us1''}"
  proof (intro set_eqI iffI)
    fix n assume "n \<in> dom mp"
    then have "n \<in> {Name (ps ! i) | i. i < length ps \<and> probe_two (i, ps ! i) \<noteq> None}"
      using a(3) by simp
    then obtain i where "i < length ps" "probe_two (i, ps ! i) \<noteq> None" "n = Name (ps ! i)"
      by blast
    then have i: "i < 3" "probe_two (i, [hk1, jp1, us1] ! i) \<noteq> None"
        "n = Name ([hk1, jp1, us1] ! i)"
      by (simp_all add: ps)
    from i(1) three have "i = 0 \<or> i = 1 \<or> i = 2" by blast
    then show "n \<in> {''hk1'', ''us1''}"
    proof (elim disjE)
      assume "i = 0" then show ?thesis using i(3) by (simp add: nm)
    next
      assume "i = 1" then show ?thesis using i(2) pr(2) by simp
    next
      assume "i = 2" then show ?thesis using i(3) by (simp add: nm)
    qed
  next
    fix n assume "n \<in> {''hk1'', ''us1''}"
    then show "n \<in> dom mp" using v0 v2 by auto
  qed
  have e: "e = None" using a(5) d by simp
  have first: "\<exists>mp gb'. URLTest registry probe_two rev group_three = Some (mp, None, gb') \<and>
      dom mp = {''hk1'', ''us1''} \<and> mp ''hk1'' = Some 120 \<and> mp ''us1'' = Some 80"
    using a(2) d v0 v2 e by blast
  from URLTest_result [OF w perm, of registry probe_none]
  obtain ps' mp' e' gb'' where all':
    "GetProxies registry False group_three = Some (ps', gb'') \<and>
     URLTest registry probe_none rev group_three = Some (mp', e', gb'') \<and>
     dom mp' = {Name (ps' ! i) | i. i < length ps' \<and> probe_none (i, ps' ! i) \<noteq> None} \<and>
     (\<forall>n d. mp' n = Some d \<longrightarrow> (\<exists>i < length ps'. Name (ps' ! i) = n \<and> probe_none (i, ps' ! i) = Some d)) \<and>
     (distinct (map Name ps') \<longrightarrow> (\<forall>i < length ps'. mp' (Name (ps' ! i)) = probe_none (i, ps' ! i))) \<and>
     (e' = Some AllProxiesTimeout \<longleftrightarrow> dom mp' = {}) \<and>
     (e' = None \<longleftrightarrow> dom mp' \<noteq> {}) \<and>
     (dom mp' = {} \<longleftrightarrow> (\<forall>i < length ps'. probe_none (i, ps' ! i) = None))"
    by (elim exE) (rule that)
  note b = all' [THEN conjunct2, THEN conjunct1]
    all' [THEN conjunct2, THEN conjunct2, THEN conjunct2, THEN conjunct2, THEN conjunct2,
      THEN conjunct2, THEN conjunct2]
    all' [THEN conjunct2, THEN conjunct2, THEN conjunct2, THEN conjunct2, THEN conjunct2, THEN conjunct1]
  have "dom mp' = {}" using b(2) by (simp add: probe_none_def)
  with b have second: "\<exists>mp gb'. URLTest registry probe_none rev group_three =
      Some (mp, Some AllProxiesTimeout, gb') \<and> dom mp = {}"
    by blast
  from w g pr first second show ?thesis by blast
qed

end
